theory Spec2Isabelle
  imports Main "HOL-Library.AList"
begin

section \<open>Data model of \<^verbatim>\<open>src/main.py\<close>\<close>

text \<open>
  The pydantic model \<^verbatim>\<open>Account\<close> (lines 30-42). Python integers are unbounded, so
  the integer fields are \<^typ>\<open>int\<close>; \<^verbatim>\<open>Optional[...]\<close> is an \<^typ>\<open>'a option\<close>.
\<close>

record Account =
  uid :: string
  token :: string
  display_name :: string
  avatar_url :: "string option"
  online :: bool
  matchmaking :: bool
  current_level :: int
  target_level :: "int option"
  today_xp :: int
  total_xp :: int
  running :: bool

text \<open>
  The constructor call of line 142: only \<^verbatim>\<open>uid\<close>, \<^verbatim>\<open>token\<close> and
  \<^verbatim>\<open>display_name\<close> are passed, every other field takes the default of the class body.
\<close>

definition new_Account :: "string \<Rightarrow> string \<Rightarrow> string \<Rightarrow> Account" where
  "new_Account u t d =
     \<lparr> uid = u, token = t, display_name = d, avatar_url = None,
       online = False, matchmaking = False, current_level = 1, target_level = None,
       today_xp = 0, total_xp = 0, running = False \<rparr>"

definition MAX_ACCOUNTS :: nat where
  "MAX_ACCOUNTS = 20"

text \<open>\<^verbatim>\<open>level_from_xp\<close> (lines 46-47). Python's \<^verbatim>\<open>//\<close> is floor division, as \<open>div\<close> on \<^typ>\<open>int\<close>.\<close>

definition level_from_xp :: "int \<Rightarrow> int" where
  "level_from_xp xp = max 1 (xp div 1000 + 1)"

section \<open>The coroutine \<^verbatim>\<open>account_loop\<close>\<close>

text \<open>
  \<^verbatim>\<open>account_loop\<close> (lines 88-121) suspends at four places: the call of
  \<^verbatim>\<open>gw_start_match\<close> (line 95), the sleep of \<^verbatim>\<open>XP_PERIOD_SECONDS\<close> (line 101), the
  call of \<^verbatim>\<open>gw_poll_result\<close> (line 104) and the sleep of one second (line 118).
\<close>

datatype point = AwaitStart | SleepPeriod | AwaitPoll | SleepYield

text \<open>
  What the event loop hands to the coroutine when it resumes it: the gateway call of
  line 95 returned or raised an \<^verbatim>\<open>Exception\<close>; a sleep elapsed; the \<^verbatim>\<open>try\<close> block of
  lines 103-105 ran through, where \<open>Ok_poll (Some g)\<close> stands for a payload whose
  \<^verbatim>\<open>"gained_xp"\<close> entry converts to the integer \<open>g\<close> and \<open>Ok_poll None\<close> for a payload
  without that entry (\<^verbatim>\<open>res.get("gained_xp", 0)\<close>), or it raised an \<^verbatim>\<open>Exception\<close>
  (the request failed, or the payload does not convert).
\<close>

datatype wakeup = Ok_start | Exc_start | Elapsed | Ok_poll "int option" | Exc_poll

text \<open>Lines 120-121, the statements after the \<^verbatim>\<open>while\<close> loop.\<close>

definition loop_exit :: "Account \<Rightarrow> Account" where
  "loop_exit a = a\<lparr>matchmaking := False, online := True\<rparr>"

text \<open>
  Lines 92-95: the test of the \<^verbatim>\<open>while\<close> loop and the statements up to the first
  suspension. The second component is the point where the coroutine is suspended next,
  \<open>None\<close> when it has returned.
\<close>

definition loop_head :: "Account \<Rightarrow> Account \<times> point option" where
  "loop_head a =
     (if running a then (a\<lparr>matchmaking := True\<rparr>, Some AwaitStart)
      else (loop_exit a, None))"

text \<open>Lines 109-118, with \<open>gained\<close> as the \<^verbatim>\<open>try\<close> statement of lines 103-107 left it.\<close>

definition after_poll :: "int \<Rightarrow> Account \<Rightarrow> Account \<times> point option" where
  "after_poll gained a =
     (let a1 = a\<lparr>today_xp := today_xp a + gained\<rparr>;
          a2 = a1\<lparr>total_xp := total_xp a1 + gained\<rparr>;
          a3 = a2\<lparr>current_level := level_from_xp (total_xp a2)\<rparr>;
          a4 = a3\<lparr>matchmaking := False\<rparr>
      in case target_level a4 of
           None \<Rightarrow> (a4, Some SleepYield)
         | Some tgt \<Rightarrow>
             if current_level a4 \<ge> tgt then (loop_exit (a4\<lparr>running := False\<rparr>), None)
             else (a4, Some SleepYield))"

text \<open>
  One resumption of the suspended coroutine: the code from one suspension point to the
  next. \<open>None\<close> means that the wake-up is not one the await at that point can receive.
\<close>

fun resume :: "point \<Rightarrow> wakeup \<Rightarrow> Account \<Rightarrow> (Account \<times> point option) option" where
  "resume AwaitStart Ok_start a = Some (a, Some SleepPeriod)"
| "resume AwaitStart Exc_start a =
     Some (loop_exit (a\<lparr>matchmaking := False, running := False\<rparr>), None)"
| "resume SleepPeriod Elapsed a = Some (a, Some AwaitPoll)"
| "resume AwaitPoll (Ok_poll g) a = Some (after_poll (case g of Some n \<Rightarrow> n | None \<Rightarrow> 0) a)"
| "resume AwaitPoll Exc_poll a = Some (after_poll 0 a)"
| "resume SleepYield Elapsed a = Some (loop_head a)"
| "resume _ _ a = None"

section \<open>Tasks and the global state\<close>

text \<open>
  An \<^verbatim>\<open>asyncio.Task\<close> wrapping \<^verbatim>\<open>account_loop(uid)\<close>. Its coroutine has not run yet
  (\<open>Created\<close>), is suspended at a point with the local variable \<^verbatim>\<open>acc\<close> bound to an
  object, or is done (\<open>Finished\<close>: it returned, raised, or was cancelled).
  \<open>must_cancel\<close> is set by \<^verbatim>\<open>Task.cancel()\<close>: the next time the event loop runs the task,
  \<^verbatim>\<open>CancelledError\<close> is thrown into the coroutine. It derives from \<^verbatim>\<open>BaseException\<close>
  (Python 3.8 and later), so neither \<^verbatim>\<open>except Exception\<close> of the loop catches it, and
  the loop has no \<^verbatim>\<open>finally\<close>: the task ends without executing another statement of
  \<^verbatim>\<open>account_loop\<close>.
\<close>

datatype frame = Created | Suspended point nat | Finished

record task =
  t_uid :: string
  frame :: frame
  must_cancel :: bool

text \<open>
  The module state. \<^verbatim>\<open>ACCOUNTS\<close> is a dict from uid to an \<^verbatim>\<open>Account\<close> object: an
  association list (in insertion order) from uid to the object's reference, the objects
  themselves living in \<open>objects\<close>, since a running loop keeps its own reference \<^verbatim>\<open>acc\<close>
  to the object. \<^verbatim>\<open>TASKS\<close> maps a uid to the identifier of a task; \<open>tasks\<close> holds every
  task created so far. Cells at and above \<open>n_objects\<close> and \<open>n_tasks\<close> are unallocated.
\<close>

record world =
  ACCOUNTS :: "(string \<times> nat) list"
  TASKS :: "string \<rightharpoonup> nat"
  objects :: "nat \<Rightarrow> Account"
  n_objects :: nat
  tasks :: "nat \<Rightarrow> task"
  n_tasks :: nat

definition init :: world where
  "init = \<lparr> ACCOUNTS = [], TASKS = Map.empty,
            objects = (\<lambda>_. new_Account [] [] []), n_objects = 0,
            tasks = (\<lambda>_. \<lparr>t_uid = [], frame = Finished, must_cancel = False\<rparr>), n_tasks = 0 \<rparr>"

text \<open>\<^verbatim>\<open>t.done()\<close> and \<^verbatim>\<open>t.cancel()\<close>.\<close>

definition task_done :: "task \<Rightarrow> bool" where
  "task_done t = (frame t = Finished)"

definition cancel :: "world \<Rightarrow> nat \<Rightarrow> world" where
  "cancel s i = s\<lparr>tasks := (tasks s)(i := (tasks s i)\<lparr>must_cancel := True\<rparr>)\<rparr>"

definition set_obj :: "world \<Rightarrow> nat \<Rightarrow> Account \<Rightarrow> world" where
  "set_obj s r a = s\<lparr>objects := (objects s)(r := a)\<rparr>"

definition set_frame :: "world \<Rightarrow> nat \<Rightarrow> frame \<Rightarrow> world" where
  "set_frame s i f = s\<lparr>tasks := (tasks s)(i := (tasks s i)\<lparr>frame := f\<rparr>)\<rparr>"

text \<open>
  The event loop runs task \<open>i\<close> once, up to its next suspension. A task that does not
  exist or is done does nothing. A task with a pending cancellation ends, whatever the
  point it is suspended at. The first run executes lines 89-95 and takes no value from
  the event loop, so its wake-up is ignored: \<^verbatim>\<open>ACCOUNTS[uid]\<close> raises \<^verbatim>\<open>KeyError\<close> when
  the uid is gone, which ends the task. A later run executes the code from the point of
  suspension to the next one, on the object \<^verbatim>\<open>acc\<close> refers to.
\<close>

definition run_task :: "world \<Rightarrow> nat \<Rightarrow> wakeup \<Rightarrow> world" where
  "run_task s i w =
     (if i \<ge> n_tasks s then s
      else case frame (tasks s i) of
        Finished \<Rightarrow> s
      | Created \<Rightarrow>
          if must_cancel (tasks s i) then set_frame s i Finished
          else (case map_of (ACCOUNTS s) (t_uid (tasks s i)) of
                  None \<Rightarrow> set_frame s i Finished
                | Some r \<Rightarrow>
                    (case loop_head ((objects s r)\<lparr>online := True, running := True\<rparr>) of
                       (a, None) \<Rightarrow> set_frame (set_obj s r a) i Finished
                     | (a, Some p) \<Rightarrow> set_frame (set_obj s r a) i (Suspended p r)))
      | Suspended p r \<Rightarrow>
          if must_cancel (tasks s i) then set_frame s i Finished
          else (case resume p w (objects s r) of
                  None \<Rightarrow> s
                | Some (a, None) \<Rightarrow> set_frame (set_obj s r a) i Finished
                | Some (a, Some q) \<Rightarrow> set_frame (set_obj s r a) i (Suspended q r)))"

section \<open>The request handlers\<close>

datatype http_error = HTTPException nat string

text \<open>The JSON bodies \<^verbatim>\<open>{"ok": True}\<close> and \<^verbatim>\<open>{"ok": True, "msg": ...}\<close>.\<close>

datatype response = Ok "string option"

text \<open>\<^verbatim>\<open>add_account\<close> (lines 136-143). \<^verbatim>\<open>uid[-4:]\<close> is the last four characters.\<close>

definition add_account :: "world \<Rightarrow> string \<Rightarrow> string \<Rightarrow> string \<Rightarrow> (http_error + response) \<times> world" where
  "add_account s u t d =
     (if length (ACCOUNTS s) \<ge> MAX_ACCOUNTS then (Inl (HTTPException 400 ''Max 20 accounts''), s)
      else if map_of (ACCOUNTS s) u \<noteq> None then (Inl (HTTPException 400 ''Account already exists''), s)
      else (Inr (Ok None),
            s\<lparr>ACCOUNTS := ACCOUNTS s @ [(u, n_objects s)],
              objects := (objects s)(n_objects s :=
                 new_Account u t (if d \<noteq> [] then d else ''User '' @ drop (length u - 4) u)),
              n_objects := Suc (n_objects s)\<rparr>))"

text \<open>\<^verbatim>\<open>remove_account\<close> (lines 145-155).\<close>

definition remove_account :: "world \<Rightarrow> string \<Rightarrow> (http_error + response) \<times> world" where
  "remove_account s u =
     (case map_of (ACCOUNTS s) u of
        None \<Rightarrow> (Inl (HTTPException 404 ''Not found''), s)
      | Some r \<Rightarrow>
          let s1 = (case TASKS s u of
                      None \<Rightarrow> s
                    | Some i \<Rightarrow>
                        if \<not> task_done (tasks s i)
                        then cancel (set_obj s r ((objects s r)\<lparr>running := False\<rparr>)) i
                        else s)
          in (Inr (Ok None),
              s1\<lparr>TASKS := (TASKS s1)(u := None), ACCOUNTS := AList.delete u (ACCOUNTS s1)\<rparr>))"

text \<open>
  \<^verbatim>\<open>start\<close> (lines 157-174). The form field \<^verbatim>\<open>target_level\<close> arrives as an optional
  integer; a new task gets the next free identifier.
\<close>

definition start :: "world \<Rightarrow> string \<Rightarrow> int option \<Rightarrow> (http_error + response) \<times> world" where
  "start s u target =
     (case map_of (ACCOUNTS s) u of
        None \<Rightarrow> (Inl (HTTPException 404 ''Not found''), s)
      | Some r \<Rightarrow>
          if (case target of None \<Rightarrow> False | Some t \<Rightarrow> t < 1)
          then (Inl (HTTPException 400 ''Invalid target level''), s)
          else
            let s1 = (case target of
                        None \<Rightarrow> s
                      | Some t \<Rightarrow> set_obj s r ((objects s r)\<lparr>target_level := Some t\<rparr>))
            in if (case TASKS s1 u of None \<Rightarrow> False | Some i \<Rightarrow> \<not> task_done (tasks s1 i))
               then (Inr (Ok (Some ''Already running'')), s1)
               else
                 let s2 = set_obj s1 r ((objects s1 r)\<lparr>running := True\<rparr>)
                 in (Inr (Ok None),
                     s2\<lparr>TASKS := (TASKS s2)(u \<mapsto> n_tasks s2),
                        tasks := (tasks s2)(n_tasks s2 :=
                           \<lparr>t_uid = u, frame = Created, must_cancel = False\<rparr>),
                        n_tasks := Suc (n_tasks s2)\<rparr>))"

text \<open>\<^verbatim>\<open>stop\<close> (lines 176-185).\<close>

definition stop :: "world \<Rightarrow> string \<Rightarrow> (http_error + response) \<times> world" where
  "stop s u =
     (case map_of (ACCOUNTS s) u of
        None \<Rightarrow> (Inl (HTTPException 404 ''Not found''), s)
      | Some r \<Rightarrow>
          let s1 = set_obj s r ((objects s r)\<lparr>running := False\<rparr>)
          in (Inr (Ok None),
              case TASKS s1 u of
                None \<Rightarrow> s1
              | Some i \<Rightarrow> if \<not> task_done (tasks s1 i) then cancel s1 i else s1))"

text \<open>\<^verbatim>\<open>reset_today\<close> (lines 187-192).\<close>

definition reset_today :: "world \<Rightarrow> string \<Rightarrow> (http_error + response) \<times> world" where
  "reset_today s u =
     (case map_of (ACCOUNTS s) u of
        None \<Rightarrow> (Inl (HTTPException 404 ''Not found''), s)
      | Some r \<Rightarrow> (Inr (Ok None), set_obj s r ((objects s r)\<lparr>today_xp := 0\<rparr>)))"

section \<open>Executions\<close>

text \<open>
  Every handler is an \<^verbatim>\<open>async def\<close> without an \<^verbatim>\<open>await\<close>, so it runs to its end
  without interleaving; the loops interleave with them at their suspension points. An
  execution is a sequence of handler calls and task runs.
\<close>

datatype event =
    Add string string string
  | Remove string
  | Start string "int option"
  | Stop string
  | ResetToday string
  | Run nat wakeup

fun apply_event :: "world \<Rightarrow> event \<Rightarrow> world" where
  "apply_event s (Add u t d) = snd (add_account s u t d)"
| "apply_event s (Remove u) = snd (remove_account s u)"
| "apply_event s (Start u target) = snd (start s u target)"
| "apply_event s (Stop u) = snd (stop s u)"
| "apply_event s (ResetToday u) = snd (reset_today s u)"
| "apply_event s (Run i w) = run_task s i w"

definition exec :: "world \<Rightarrow> event list \<Rightarrow> world" where
  "exec s es = foldl apply_event s es"

text \<open>The account object registered under a uid.\<close>

definition account_of :: "world \<Rightarrow> string \<Rightarrow> Account option" where
  "account_of s u = map_option (objects s) (map_of (ACCOUNTS s) u)"

section \<open>Predicates used in the statements and proofs\<close>

text \<open>The stored level agrees with the level function of the stored total.\<close>

definition level_ok :: "Account \<Rightarrow> bool" where
  "level_ok a = (current_level a = level_from_xp (total_xp a))"

text \<open>
  A task that can still execute a statement of \<^verbatim>\<open>account_loop\<close>: it is not done and
  no cancellation is pending.
\<close>

definition runnable :: "task \<Rightarrow> bool" where
  "runnable t = (frame t \<noteq> Finished \<and> \<not> must_cancel t)"

text \<open>The loops of a uid that are not done, and those among them that are runnable.\<close>

definition live_loops :: "world \<Rightarrow> string \<Rightarrow> nat list" where
  "live_loops s u = filter (\<lambda>i. t_uid (tasks s i) = u \<and> \<not> task_done (tasks s i)) [0..<n_tasks s]"

definition active_loops :: "world \<Rightarrow> string \<Rightarrow> nat list" where
  "active_loops s u = filter (\<lambda>i. t_uid (tasks s i) = u \<and> runnable (tasks s i)) [0..<n_tasks s]"

text \<open>Every uid has its own, allocated, object.\<close>

definition refs_ok :: "world \<Rightarrow> bool" where
  "refs_ok s = (distinct (map snd (ACCOUNTS s)) \<and> (\<forall>p \<in> set (ACCOUNTS s). snd p < n_objects s))"

text \<open>
  A runnable task is the one recorded in \<^verbatim>\<open>TASKS\<close> for its uid; once suspended, its
  \<^verbatim>\<open>acc\<close> is the object registered for that uid, and \<^verbatim>\<open>acc.running\<close> holds.
\<close>

definition owner_ok :: "world \<Rightarrow> bool" where
  "owner_ok s =
     (\<forall>i < n_tasks s. runnable (tasks s i) \<longrightarrow>
        TASKS s (t_uid (tasks s i)) = Some i \<and>
        (\<forall>p r. frame (tasks s i) = Suspended p r \<longrightarrow>
           map_of (ACCOUNTS s) (t_uid (tasks s i)) = Some r \<and> running (objects s r)))"

definition inv :: "world \<Rightarrow> bool" where
  "inv s = (refs_ok s \<and> owner_ok s)"

text \<open>
  Executions used as concrete inputs: account \<^verbatim>\<open>A\<close> is added; it is started and its loop
  runs up to the submission (\<open>queued\<close>), up to the wait of \<^verbatim>\<open>XP_PERIOD_SECONDS\<close>
  (\<open>waiting\<close>), up to the poll (\<open>polling\<close>). The first run of a task takes no value, so
  the wake-up given to it is ignored.
\<close>

definition registered :: "event list" where
  "registered = [Add ''A'' ''tok'' []]"

definition queued :: "int option \<Rightarrow> event list" where
  "queued target = registered @ [Start ''A'' target, Run 0 Elapsed]"

definition waiting :: "int option \<Rightarrow> event list" where
  "waiting target = queued target @ [Run 0 Ok_start]"

definition polling :: "int option \<Rightarrow> event list" where
  "polling target = waiting target @ [Run 0 Elapsed]"

text \<open>\<^verbatim>\<open>stop\<close> arrives during the wait, and the event loop then runs the cancelled task.\<close>

definition stopped_while_waiting :: "event list" where
  "stopped_while_waiting = waiting None @ [Stop ''A'', Run 0 Elapsed]"

text \<open>The first submission raises.\<close>

definition submission_failed :: "event list" where
  "submission_failed = queued None @ [Run 0 Exc_start]"

text \<open>The event is a call of \<^verbatim>\<open>start\<close> for the uid.\<close>

fun is_Start_of :: "string \<Rightarrow> event \<Rightarrow> bool" where
  "is_Start_of u (Start v target) = (v = u)"
| "is_Start_of u e = False"

text \<open>
  The value of the variable \<^verbatim>\<open>gained\<close> after lines 103-107, and the events whose gained
  amount is not negative.
\<close>

fun gained :: "wakeup \<Rightarrow> int" where
  "gained (Ok_poll (Some g)) = g"
| "gained w = 0"

fun nonneg_gain :: "event \<Rightarrow> bool" where
  "nonneg_gain (Run i w) = (0 \<le> gained w)"
| "nonneg_gain e = True"

fun is_ResetToday :: "event \<Rightarrow> bool" where
  "is_ResetToday (ResetToday u) = True"
| "is_ResetToday e = False"

text \<open>A task recorded in \<^verbatim>\<open>TASKS\<close> exists and was created for that uid.\<close>

definition handles_ok :: "world \<Rightarrow> bool" where
  "handles_ok s = (\<forall>u i. TASKS s u = Some i \<longrightarrow> i < n_tasks s \<and> t_uid (tasks s i) = u)"

section \<open>The stored level follows the stored total\<close>

lemma level_ok_update [simp]:
  "level_ok (a\<lparr>online := b\<rparr>) = level_ok a"
  "level_ok (a\<lparr>matchmaking := b\<rparr>) = level_ok a"
  "level_ok (a\<lparr>running := b\<rparr>) = level_ok a"
  "level_ok (a\<lparr>target_level := t\<rparr>) = level_ok a"
  "level_ok (a\<lparr>today_xp := x\<rparr>) = level_ok a"
  by (simp_all add: level_ok_def)

lemma level_ok_new [simp]: "level_ok (new_Account u t d)"
  by (simp add: level_ok_def new_Account_def level_from_xp_def)

lemma loop_head_level: "loop_head a = (a', k) \<Longrightarrow> level_ok a \<Longrightarrow> level_ok a'"
  by (auto simp: loop_head_def loop_exit_def split: if_splits)

lemma after_poll_level: "after_poll g a = (a', k) \<Longrightarrow> level_ok a'"
  by (auto simp: after_poll_def loop_exit_def level_ok_def Let_def split: if_splits option.splits)

lemma resume_level: "resume p w a = Some (a', k) \<Longrightarrow> level_ok a \<Longrightarrow> level_ok a'"
  by (cases p; cases w) (auto simp: loop_exit_def dest: loop_head_level after_poll_level)

lemma run_task_level:
  assumes "\<forall>r. level_ok (objects s r)"
  shows "level_ok (objects (run_task s i w) r)"
  using assms
  by (auto simp: run_task_def set_obj_def set_frame_def
      split: frame.splits option.splits prod.splits if_splits dest: resume_level loop_head_level)

lemma add_account_level:
  assumes "\<forall>r. level_ok (objects s r)"
  shows "level_ok (objects (snd (add_account s u t d)) r)"
  using assms by (simp add: add_account_def)

lemma remove_account_level:
  assumes "\<forall>r. level_ok (objects s r)"
  shows "level_ok (objects (snd (remove_account s u)) r)"
  using assms by (simp add: remove_account_def set_obj_def cancel_def Let_def split: option.splits)

lemma start_level:
  assumes "\<forall>r. level_ok (objects s r)"
  shows "level_ok (objects (snd (start s u target)) r)"
  using assms by (simp add: start_def set_obj_def Let_def split: option.splits)

lemma stop_level:
  assumes "\<forall>r. level_ok (objects s r)"
  shows "level_ok (objects (snd (stop s u)) r)"
  using assms by (simp add: stop_def set_obj_def cancel_def Let_def split: option.splits)

lemma reset_today_level:
  assumes "\<forall>r. level_ok (objects s r)"
  shows "level_ok (objects (snd (reset_today s u)) r)"
  using assms by (simp add: reset_today_def set_obj_def split: option.splits)

lemma apply_event_level:
  assumes "\<forall>r. level_ok (objects s r)"
  shows "\<forall>r. level_ok (objects (apply_event s e) r)"
  using assms
  by (cases e)
    (simp_all add: run_task_level add_account_level remove_account_level start_level stop_level
      reset_today_level)

lemma exec_Nil [simp]: "exec s [] = s"
  by (simp add: exec_def)

lemma exec_Cons [simp]: "exec s (e # es) = exec (apply_event s e) es"
  by (simp add: exec_def)

lemma exec_append: "exec s (es @ es') = exec (exec s es) es'"
  by (simp add: exec_def)

lemma exec_level:
  assumes "\<forall>r. level_ok (objects s r)"
  shows "\<forall>r. level_ok (objects (exec s es) r)"
  using assms by (induction es arbitrary: s) (simp_all add: apply_event_level)

lemma init_level: "level_ok (objects init r)"
  by (simp add: init_def)

section \<open>Each runnable loop owns its uid\<close>

lemma refs_inj:
  assumes "refs_ok s" "map_of (ACCOUNTS s) u = Some r" "map_of (ACCOUNTS s) v = Some r"
  shows "u = v"
proof -
  have "(u, r) \<in> set (ACCOUNTS s)" "(v, r) \<in> set (ACCOUNTS s)"
    using assms by (auto dest: map_of_SomeD)
  moreover have "inj_on snd (set (ACCOUNTS s))"
    using assms(1) by (simp add: refs_ok_def distinct_map)
  ultimately show ?thesis
    using inj_onD [of snd "set (ACCOUNTS s)" "(u, r)" "(v, r)"] by simp
qed

lemma refs_bound:
  "refs_ok s \<Longrightarrow> map_of (ACCOUNTS s) u = Some r \<Longrightarrow> r < n_objects s"
  by (fastforce simp: refs_ok_def dest: map_of_SomeD)

lemma owner_okD:
  assumes "owner_ok s" "i < n_tasks s" "frame (tasks s i) \<noteq> Finished" "\<not> must_cancel (tasks s i)"
  shows "TASKS s (t_uid (tasks s i)) = Some i"
    and "frame (tasks s i) = Suspended p r \<Longrightarrow> map_of (ACCOUNTS s) (t_uid (tasks s i)) = Some r"
    and "frame (tasks s i) = Suspended p r \<Longrightarrow> running (objects s r)"
  using assms by (auto simp: owner_ok_def runnable_def)

lemma refs_ok_add: "refs_ok s \<Longrightarrow> refs_ok (snd (add_account s u t d))"
  by (auto simp: refs_ok_def add_account_def less_Suc_eq)

lemma refs_ok_remove: "refs_ok s \<Longrightarrow> refs_ok (snd (remove_account s u))"
  by (auto simp: refs_ok_def remove_account_def set_obj_def cancel_def Let_def AList.delete_eq
      distinct_map_filter split: option.splits)

lemma refs_ok_start: "refs_ok s \<Longrightarrow> refs_ok (snd (start s u target))"
  by (auto simp: refs_ok_def start_def set_obj_def Let_def split: option.splits)

lemma refs_ok_stop: "refs_ok s \<Longrightarrow> refs_ok (snd (stop s u))"
  by (auto simp: refs_ok_def stop_def set_obj_def cancel_def Let_def split: option.splits)

lemma refs_ok_reset: "refs_ok s \<Longrightarrow> refs_ok (snd (reset_today s u))"
  by (auto simp: refs_ok_def reset_today_def set_obj_def split: option.splits)

lemma run_task_frame [simp]:
  "ACCOUNTS (run_task s i w) = ACCOUNTS s"
  "TASKS (run_task s i w) = TASKS s"
  "n_tasks (run_task s i w) = n_tasks s"
  "n_objects (run_task s i w) = n_objects s"
  "t_uid (tasks (run_task s i w) j) = t_uid (tasks s j)"
  "must_cancel (tasks (run_task s i w) j) = must_cancel (tasks s j)"
  by (simp_all add: run_task_def set_obj_def set_frame_def
      split: frame.splits option.splits prod.splits)

lemma refs_ok_run: "refs_ok s \<Longrightarrow> refs_ok (run_task s i w)"
  by (simp add: refs_ok_def)

lemma loop_head_running: "loop_head a = (a', Some q) \<Longrightarrow> running a'"
  by (auto simp: loop_head_def split: if_splits)

lemma after_poll_running: "after_poll g a = (a', Some q) \<Longrightarrow> running a' = running a"
  by (auto simp: after_poll_def Let_def split: if_splits option.splits)

lemma resume_running: "resume p w a = Some (a', Some q) \<Longrightarrow> running a \<Longrightarrow> running a'"
  by (cases p; cases w) (auto dest: loop_head_running after_poll_running)

lemma run_task_other [simp]: "j \<noteq> i \<Longrightarrow> tasks (run_task s i w) j = tasks s j"
  by (simp add: run_task_def set_obj_def set_frame_def
      split: frame.splits option.splits prod.splits)

lemma run_task_objects_other:
  assumes "frame (tasks s i) = Suspended p r" "r' \<noteq> r"
  shows "objects (run_task s i w) r' = objects s r'"
  using assms by (simp add: run_task_def set_obj_def set_frame_def split: option.splits prod.splits)

lemma run_task_objects_other_Created:
  assumes "frame (tasks s i) = Created" "map_of (ACCOUNTS s) (t_uid (tasks s i)) \<noteq> Some r'"
  shows "objects (run_task s i w) r' = objects s r'"
  using assms by (auto simp: run_task_def set_obj_def set_frame_def split: option.splits prod.splits)

lemma run_task_Finished [simp]: "frame (tasks s i) = Finished \<Longrightarrow> run_task s i w = s"
  by (simp add: run_task_def)

lemma run_task_self:
  assumes "i < n_tasks s" "frame (tasks (run_task s i w) i) = Suspended q r" "\<not> must_cancel (tasks s i)"
  shows "(frame (tasks s i) = Created \<and> map_of (ACCOUNTS s) (t_uid (tasks s i)) = Some r
           \<and> running (objects (run_task s i w) r))
       \<or> (\<exists>p. frame (tasks s i) = Suspended p r
           \<and> (running (objects s r) \<longrightarrow> running (objects (run_task s i w) r)))"
  using assms
  by (auto simp: run_task_def set_obj_def set_frame_def
      split: frame.splits option.splits prod.splits if_splits
      dest: loop_head_running resume_running)

lemma owner_ok_run:
  assumes refs: "refs_ok s" and own: "owner_ok s"
  shows "owner_ok (run_task s i w)"
  unfolding owner_ok_def
proof (intro allI impI)
  fix j
  let ?s' = "run_task s i w"
  assume j: "j < n_tasks ?s'" and run: "runnable (tasks ?s' j)"
  show "TASKS ?s' (t_uid (tasks ?s' j)) = Some j \<and>
        (\<forall>p r. frame (tasks ?s' j) = Suspended p r \<longrightarrow>
           map_of (ACCOUNTS ?s') (t_uid (tasks ?s' j)) = Some r \<and> running (objects ?s' r))"
  proof (cases "j = i")
    case True
    have nc: "\<not> must_cancel (tasks s i)"
      using run True by (simp add: runnable_def)
    have nf: "frame (tasks s i) \<noteq> Finished"
      using run True by (auto simp: runnable_def)
    have i: "i < n_tasks s"
      using j True by simp
    note o = owner_okD [OF own i nf nc]
    have "map_of (ACCOUNTS s) (t_uid (tasks s i)) = Some r \<and> running (objects ?s' r)"
      if "frame (tasks ?s' i) = Suspended q r" for q r
      using run_task_self [OF i that nc] o(2,3) by blast
    then show ?thesis
      using o(1) True by simp
  next
    case False
    then have same: "tasks ?s' j = tasks s j"
      by simp
    have rj: "runnable (tasks s j)" and j': "j < n_tasks s"
      using run j same by simp_all
    then have nfj: "frame (tasks s j) \<noteq> Finished" and ncj: "\<not> must_cancel (tasks s j)"
      by (simp_all add: runnable_def)
    note oj = owner_okD [OF own j' nfj ncj]
    have "running (objects ?s' r)" if fr: "frame (tasks s j) = Suspended p r" for p r
    proof -
      have mj: "map_of (ACCOUNTS s) (t_uid (tasks s j)) = Some r" and rr: "running (objects s r)"
        using oj(2,3) fr by simp_all
      have "objects ?s' r = objects s r"
      proof (cases "i < n_tasks s \<and> runnable (tasks s i)")
        case False
        then show ?thesis
          by (auto simp: run_task_def runnable_def set_frame_def split: frame.splits)
      next
        case True
        then have i: "i < n_tasks s" and nf: "frame (tasks s i) \<noteq> Finished"
          and nc: "\<not> must_cancel (tasks s i)"
          by (simp_all add: runnable_def)
        note oi = owner_okD [OF own i nf nc]
        have diff: "t_uid (tasks s i) \<noteq> t_uid (tasks s j)"
          using oi(1) oj(1) \<open>j \<noteq> i\<close> by auto
        show ?thesis
        proof (cases "frame (tasks s i)")
          case Created
          have "map_of (ACCOUNTS s) (t_uid (tasks s i)) \<noteq> Some r"
            using refs_inj [OF refs _ mj] diff by blast
          then show ?thesis
            using Created by (rule run_task_objects_other_Created [rotated])
        next
          case (Suspended p' r')
          have "map_of (ACCOUNTS s) (t_uid (tasks s i)) = Some r'"
            using oi(2) Suspended by simp
          then have "r \<noteq> r'"
            using refs_inj [OF refs _ mj] diff by blast
          then show ?thesis
            using Suspended by (simp add: run_task_objects_other)
        next
          case Finished
          then show ?thesis using nf by simp
        qed
      qed
      then show ?thesis using rr by simp
    qed
    then show ?thesis
      using oj same by simp
  qed
qed

lemma owner_okI:
  assumes "\<And>i. i < n_tasks s \<Longrightarrow> runnable (tasks s i) \<Longrightarrow> TASKS s (t_uid (tasks s i)) = Some i"
    and "\<And>i p r. i < n_tasks s \<Longrightarrow> runnable (tasks s i) \<Longrightarrow> frame (tasks s i) = Suspended p r
           \<Longrightarrow> map_of (ACCOUNTS s) (t_uid (tasks s i)) = Some r \<and> running (objects s r)"
  shows "owner_ok s"
  using assms unfolding owner_ok_def by blast

lemma owner_ok_runnable:
  assumes "owner_ok s" "i < n_tasks s" "runnable (tasks s i)"
  shows "TASKS s (t_uid (tasks s i)) = Some i"
    and "frame (tasks s i) = Suspended p r \<Longrightarrow> map_of (ACCOUNTS s) (t_uid (tasks s i)) = Some r"
    and "frame (tasks s i) = Suspended p r \<Longrightarrow> running (objects s r)"
  using assms by (auto simp: owner_ok_def)

lemma owner_ok_add:
  assumes refs: "refs_ok s" and own: "owner_ok s"
  shows "owner_ok (snd (add_account s u t d))"
proof (cases "fst (add_account s u t d)")
  case (Inl e)
  then have "snd (add_account s u t d) = s"
    by (auto simp: add_account_def split: if_splits)
  then show ?thesis using own by simp
next
  case (Inr x)
  let ?s' = "snd (add_account s u t d)"
  from Inr have eq: "tasks ?s' = tasks s" "n_tasks ?s' = n_tasks s" "TASKS ?s' = TASKS s"
    "ACCOUNTS ?s' = ACCOUNTS s @ [(u, n_objects s)]"
    "\<And>r. r < n_objects s \<Longrightarrow> objects ?s' r = objects s r"
    by (auto simp: add_account_def split: if_splits)
  show ?thesis
  proof (rule owner_okI)
    fix i
    assume "i < n_tasks ?s'" "runnable (tasks ?s' i)"
    then show "TASKS ?s' (t_uid (tasks ?s' i)) = Some i"
      using owner_ok_runnable(1) [OF own, of i] by (simp add: eq)
  next
    fix i p r
    assume a: "i < n_tasks ?s'" "runnable (tasks ?s' i)" "frame (tasks ?s' i) = Suspended p r"
    then have m: "map_of (ACCOUNTS s) (t_uid (tasks s i)) = Some r" and rr: "running (objects s r)"
      using owner_ok_runnable(2,3) [OF own, of i p r] by (simp_all add: eq)
    have "r < n_objects s"
      using refs_bound [OF refs m] .
    with m rr show "map_of (ACCOUNTS ?s') (t_uid (tasks ?s' i)) = Some r \<and> running (objects ?s' r)"
      by (simp add: eq map_add_Some_iff)
  qed
qed

lemma owner_ok_reset: "owner_ok s \<Longrightarrow> owner_ok (snd (reset_today s u))"
  by (auto simp: owner_ok_def reset_today_def set_obj_def split: option.splits)

lemma owner_ok_stop:
  assumes refs: "refs_ok s" and own: "owner_ok s"
  shows "owner_ok (snd (stop s u))"
proof (cases "map_of (ACCOUNTS s) u")
  case None
  then show ?thesis using own by (simp add: stop_def)
next
  case (Some r)
  let ?s' = "snd (stop s u)"
  have eq: "n_tasks ?s' = n_tasks s" "TASKS ?s' = TASKS s" "ACCOUNTS ?s' = ACCOUNTS s"
    "\<And>i. t_uid (tasks ?s' i) = t_uid (tasks s i)" "\<And>i. frame (tasks ?s' i) = frame (tasks s i)"
    "\<And>i. runnable (tasks ?s' i) \<Longrightarrow> runnable (tasks s i)"
    "\<And>r'. r' \<noteq> r \<Longrightarrow> objects ?s' r' = objects s r'"
    "\<And>i. TASKS s u = Some i \<Longrightarrow> frame (tasks s i) \<noteq> Finished \<Longrightarrow> must_cancel (tasks ?s' i)"
    using Some
    by (auto simp: stop_def set_obj_def cancel_def Let_def task_done_def runnable_def
        split: option.splits if_splits)
  show ?thesis
  proof (rule owner_okI)
    fix i
    assume "i < n_tasks ?s'" "runnable (tasks ?s' i)"
    then show "TASKS ?s' (t_uid (tasks ?s' i)) = Some i"
      using owner_ok_runnable(1) [OF own, of i] eq(6) by (simp add: eq(1-5))
  next
    fix i p r'
    assume a: "i < n_tasks ?s'" "runnable (tasks ?s' i)" "frame (tasks ?s' i) = Suspended p r'"
    then have i: "i < n_tasks s" and ri: "runnable (tasks s i)" and fr: "frame (tasks s i) = Suspended p r'"
      using eq(6) by (simp_all add: eq(1-5))
    note o = owner_ok_runnable [OF own i ri]
    have "r' \<noteq> r"
    proof
      assume "r' = r"
      then have "t_uid (tasks s i) = u"
        using refs_inj [OF refs o(2) [OF fr]] Some by simp
      then have "must_cancel (tasks ?s' i)"
        using o(1) eq(8) [of i] fr by simp
      then show False
        using a(2) by (simp add: runnable_def)
    qed
    then show "map_of (ACCOUNTS ?s') (t_uid (tasks ?s' i)) = Some r' \<and> running (objects ?s' r')"
      using o(2,3) [OF fr] by (simp add: eq)
  qed
qed

lemma owner_ok_remove:
  assumes refs: "refs_ok s" and own: "owner_ok s"
  shows "owner_ok (snd (remove_account s u))"
proof (cases "map_of (ACCOUNTS s) u")
  case None
  then show ?thesis using own by (simp add: remove_account_def)
next
  case (Some r)
  let ?s' = "snd (remove_account s u)"
  have eq: "n_tasks ?s' = n_tasks s" "TASKS ?s' = (TASKS s)(u := None)"
    "ACCOUNTS ?s' = AList.delete u (ACCOUNTS s)"
    "\<And>i. t_uid (tasks ?s' i) = t_uid (tasks s i)" "\<And>i. frame (tasks ?s' i) = frame (tasks s i)"
    "\<And>i. runnable (tasks ?s' i) \<Longrightarrow> runnable (tasks s i)"
    "\<And>r'. r' \<noteq> r \<Longrightarrow> objects ?s' r' = objects s r'"
    "\<And>i. TASKS s u = Some i \<Longrightarrow> frame (tasks s i) \<noteq> Finished \<Longrightarrow> must_cancel (tasks ?s' i)"
    using Some
    by (auto simp: remove_account_def set_obj_def cancel_def Let_def task_done_def runnable_def
        split: option.splits if_splits)
  have other: "t_uid (tasks s i) \<noteq> u" if "i < n_tasks s" "runnable (tasks ?s' i)" for i
  proof
    assume u: "t_uid (tasks s i) = u"
    have ri: "runnable (tasks s i)"
      using that eq(6) by simp
    then have "TASKS s u = Some i"
      using owner_ok_runnable(1) [OF own that(1)] u by simp
    then have "must_cancel (tasks ?s' i)"
      using eq(8) [of i] ri by (simp add: runnable_def)
    then show False
      using that(2) by (simp add: runnable_def)
  qed
  show ?thesis
  proof (rule owner_okI)
    fix i
    assume a: "i < n_tasks ?s'" "runnable (tasks ?s' i)"
    then show "TASKS ?s' (t_uid (tasks ?s' i)) = Some i"
      using owner_ok_runnable(1) [OF own, of i] eq(6) other [of i] by (simp add: eq(1-5))
  next
    fix i p r'
    assume a: "i < n_tasks ?s'" "runnable (tasks ?s' i)" "frame (tasks ?s' i) = Suspended p r'"
    then have i: "i < n_tasks s" and ri: "runnable (tasks s i)" and fr: "frame (tasks s i) = Suspended p r'"
      using eq(6) by (simp_all add: eq(1-5))
    note o = owner_ok_runnable [OF own i ri]
    have nu: "t_uid (tasks s i) \<noteq> u"
      using other [OF i a(2)] .
    have "r' \<noteq> r"
      using refs_inj [OF refs o(2) [OF fr]] Some nu by auto
    then show "map_of (ACCOUNTS ?s') (t_uid (tasks ?s' i)) = Some r' \<and> running (objects ?s' r')"
      using o(2,3) [OF fr] nu by (simp add: eq)
  qed
qed

lemma owner_ok_start:
  assumes own: "owner_ok s"
  shows "owner_ok (snd (start s u target))"
proof (cases "fst (start s u target) = Inr (Ok None)")
  case False
  let ?s' = "snd (start s u target)"
  from False have eq: "n_tasks ?s' = n_tasks s" "TASKS ?s' = TASKS s" "ACCOUNTS ?s' = ACCOUNTS s"
    "tasks ?s' = tasks s" "\<And>r. running (objects ?s' r) = running (objects s r)"
    by (auto simp: start_def set_obj_def Let_def split: option.splits if_splits)
  show ?thesis
    using own unfolding owner_ok_def eq .
next
  case True
  let ?s' = "snd (start s u target)"
  let ?n = "n_tasks s"
  from True have eq: "n_tasks ?s' = Suc ?n" "TASKS ?s' = (TASKS s)(u \<mapsto> ?n)"
    "ACCOUNTS ?s' = ACCOUNTS s"
    "tasks ?s' = (tasks s)(?n := \<lparr>t_uid = u, frame = Created, must_cancel = False\<rparr>)"
    "\<And>r. running (objects s r) \<Longrightarrow> running (objects ?s' r)"
    "\<And>i. TASKS s u = Some i \<Longrightarrow> frame (tasks s i) = Finished"
    by (auto simp: start_def set_obj_def Let_def task_done_def split: option.splits if_splits)
  have other: "t_uid (tasks s i) \<noteq> u" if "i < ?n" "runnable (tasks s i)" for i
    using owner_ok_runnable(1) [OF own that] eq(6) [of i] that(2) by (auto simp: runnable_def)
  show ?thesis
  proof (rule owner_okI)
    fix i
    assume a: "i < n_tasks ?s'" "runnable (tasks ?s' i)"
    show "TASKS ?s' (t_uid (tasks ?s' i)) = Some i"
    proof (cases "i = ?n")
      case True
      then show ?thesis by (simp add: eq)
    next
      case False
      then show ?thesis
        using a owner_ok_runnable(1) [OF own, of i] other [of i] by (simp add: eq)
    qed
  next
    fix i p r
    assume a: "i < n_tasks ?s'" "runnable (tasks ?s' i)" "frame (tasks ?s' i) = Suspended p r"
    then have ne: "i \<noteq> ?n"
      by (auto simp: eq)
    then have i: "i < ?n" and ri: "runnable (tasks s i)" and fr: "frame (tasks s i) = Suspended p r"
      using a by (simp_all add: eq)
    show "map_of (ACCOUNTS ?s') (t_uid (tasks ?s' i)) = Some r \<and> running (objects ?s' r)"
      using owner_ok_runnable(2,3) [OF own i ri fr] ne eq(5) by (simp add: eq(1-4))
  qed
qed

lemma inv_init: "inv init"
  by (simp add: inv_def refs_ok_def owner_ok_def init_def)

lemma inv_apply_event: "inv s \<Longrightarrow> inv (apply_event s e)"
  unfolding inv_def
  by (cases e)
    (simp_all add: refs_ok_add refs_ok_remove refs_ok_start refs_ok_stop refs_ok_reset refs_ok_run
      owner_ok_add owner_ok_remove owner_ok_start owner_ok_stop owner_ok_reset owner_ok_run)

lemma inv_exec: "inv s \<Longrightarrow> inv (exec s es)"
  by (induction es arbitrary: s) (simp_all add: inv_apply_event)

section \<open>A task that is done stays done\<close>

lemma n_tasks_apply_event: "n_tasks s \<le> n_tasks (apply_event s e)"
  by (cases e)
    (auto simp: add_account_def remove_account_def start_def stop_def reset_today_def
      set_obj_def cancel_def Let_def split: option.splits if_splits)

lemma frame_handlers:
  "frame (tasks (snd (add_account s u t d)) i) = frame (tasks s i)"
  "frame (tasks (snd (remove_account s u)) i) = frame (tasks s i)"
  "frame (tasks (snd (stop s u)) i) = frame (tasks s i)"
  "frame (tasks (snd (reset_today s u)) i) = frame (tasks s i)"
  "i < n_tasks s \<Longrightarrow> frame (tasks (snd (start s u target)) i) = frame (tasks s i)"
  by (auto simp: add_account_def remove_account_def start_def stop_def reset_today_def
      set_obj_def cancel_def Let_def split: option.splits if_splits)

lemma run_task_stays_Finished:
  "frame (tasks s j) = Finished \<Longrightarrow> frame (tasks (run_task s i w) j) = Finished"
  by (cases "j = i") simp_all

lemma Finished_apply_event:
  assumes "i < n_tasks s" "frame (tasks s i) = Finished"
  shows "frame (tasks (apply_event s e) i) = Finished"
  using assms by (cases e) (simp_all add: frame_handlers run_task_stays_Finished)

lemma Finished_exec:
  assumes "i < n_tasks s" "frame (tasks s i) = Finished"
  shows "frame (tasks (exec s es) i) = Finished"
  using assms
proof (induction es arbitrary: s)
  case Nil
  then show ?case by simp
next
  case (Cons e es)
  have "i < n_tasks (apply_event s e)"
    using Cons.prems(1) n_tasks_apply_event [of s e] by simp
  then show ?case
    using Cons by (simp add: Finished_apply_event)
qed

section \<open>Loops per uid\<close>

lemma active_loops_le_1:
  assumes "inv s"
  shows "length (active_loops s u) \<le> 1"
proof -
  let ?xs = "active_loops s u"
  have d: "distinct ?xs"
    by (simp add: active_loops_def)
  have own: "owner_ok s"
    using assms by (simp add: inv_def)
  have t: "TASKS s u = Some j" if "j \<in> set ?xs" for j
    using that owner_ok_runnable(1) [OF own, of j] by (auto simp: active_loops_def)
  have same: "x = y" if "x \<in> set ?xs" "y \<in> set ?xs" for x y
    using t [OF that(1)] t [OF that(2)] by simp
  show ?thesis
  proof (cases ?xs)
    case Nil
    then show ?thesis by simp
  next
    case (Cons x ys)
    have "ys = []"
    proof (cases ys)
      case Nil
      then show ?thesis .
    next
      case (Cons y zs)
      then have "x = y"
        using same [of x y] \<open>?xs = x # ys\<close> by simp
      then show ?thesis
        using d \<open>?xs = x # ys\<close> Cons by simp
    qed
    then show ?thesis using Cons by simp
  qed
qed

lemma start_live:
  assumes "map_of (ACCOUNTS s) u = Some r" "TASKS s u = Some i" "\<not> task_done (tasks s i)"
    "\<forall>t. target = Some t \<longrightarrow> 1 \<le> t"
  shows "fst (start s u target) = Inr (Ok (Some ''Already running''))"
    and "tasks (snd (start s u target)) = tasks s"
    and "n_tasks (snd (start s u target)) = n_tasks s"
    and "TASKS (snd (start s u target)) = TASKS s"
  using assms by (auto simp: start_def set_obj_def Let_def split: option.splits)

lemma start_no_spawn:
  assumes "TASKS s u = Some i" "\<not> task_done (tasks s i)"
  shows "tasks (snd (start s u target)) = tasks s"
    and "n_tasks (snd (start s u target)) = n_tasks s"
  using assms by (auto simp: start_def set_obj_def Let_def split: option.splits)

lemma start_idle:
  assumes "TASKS s u = None \<or> (\<exists>i. TASKS s u = Some i \<and> task_done (tasks s i))"
    "fst (start s u target) = Inr x"
  shows "x = Ok None"
    and "tasks (snd (start s u target)) =
           (tasks s)(n_tasks s := \<lparr>t_uid = u, frame = Created, must_cancel = False\<rparr>)"
    and "n_tasks (snd (start s u target)) = Suc (n_tasks s)"
    and "TASKS (snd (start s u target)) = (TASKS s)(u \<mapsto> n_tasks s)"
  using assms by (auto simp: start_def set_obj_def Let_def split: option.splits if_splits)

lemma start_twice_live:
  assumes idle: "TASKS s u = None \<or> (\<exists>i. TASKS s u = Some i \<and> task_done (tasks s i))"
    and ok: "fst (start s u target) = Inr x"
  shows "length (live_loops (snd (start (snd (start s u target)) u target')) u)
           = Suc (length (live_loops s u))"
    and "n_tasks (snd (start (snd (start s u target)) u target')) = Suc (n_tasks s)"
proof -
  let ?s1 = "snd (start s u target)"
  let ?s2 = "snd (start ?s1 u target')"
  let ?n = "n_tasks s"
  note one = start_idle [OF idle ok]
  have h: "TASKS ?s1 u = Some ?n" "\<not> task_done (tasks ?s1 ?n)"
    by (simp_all add: one task_done_def)
  note two = start_no_spawn [OF h, of target']
  show "n_tasks ?s2 = Suc ?n"
    by (simp add: two one)
  have "live_loops ?s2 u =
          filter (\<lambda>i. t_uid (tasks ?s2 i) = u \<and> \<not> task_done (tasks ?s2 i)) [0..<?n] @ [?n]"
    by (simp add: live_loops_def two one task_done_def)
  also have "filter (\<lambda>i. t_uid (tasks ?s2 i) = u \<and> \<not> task_done (tasks ?s2 i)) [0..<?n]
      = live_loops s u"
    unfolding live_loops_def by (rule filter_cong) (simp_all add: two one)
  finally show "length (live_loops ?s2 u) = Suc (length (live_loops s u))"
    by simp
qed

section \<open>Evaluation of concrete executions\<close>

lemmas eval_defs =
  registered_def queued_def waiting_def polling_def
  init_def add_account_def remove_account_def start_def stop_def reset_today_def run_task_def
  set_obj_def set_frame_def cancel_def new_Account_def MAX_ACCOUNTS_def task_done_def
  loop_head_def loop_exit_def after_poll_def level_from_xp_def account_of_def
  live_loops_def active_loops_def runnable_def

text \<open>On the paths where the coroutine returns, line 120 has cleared \<^verbatim>\<open>matchmaking\<close>.\<close>

lemma return_clears_matchmaking:
  "loop_head a = (a', None) \<Longrightarrow> \<not> matchmaking a'"
  "resume p w a = Some (a', None) \<Longrightarrow> \<not> matchmaking a'"
proof -
  show h: "\<not> matchmaking a'" if "loop_head a = (a', None)" for a a'
    using that by (auto simp: loop_head_def loop_exit_def split: if_splits)
  show "\<not> matchmaking a'" if "resume p w a = Some (a', None)"
    using that h
    by (cases p; cases w)
      (auto simp: after_poll_def loop_exit_def Let_def split: option.splits if_splits)
qed

section \<open>No loop appears without a call of start\<close>

lemma runnable_run_task:
  "runnable (tasks (run_task s i w) j) \<Longrightarrow> runnable (tasks s j)"
  using run_task_stays_Finished [of s j i w] by (auto simp: runnable_def)

lemma runnable_handlers:
  "runnable (tasks (snd (add_account s u t d)) j) \<Longrightarrow> runnable (tasks s j)"
  "runnable (tasks (snd (remove_account s u)) j) \<Longrightarrow> runnable (tasks s j)"
  "runnable (tasks (snd (stop s u)) j) \<Longrightarrow> runnable (tasks s j)"
  "runnable (tasks (snd (reset_today s u)) j) \<Longrightarrow> runnable (tasks s j)"
  "j < n_tasks s \<Longrightarrow> runnable (tasks (snd (start s u target)) j) \<Longrightarrow> runnable (tasks s j)"
  by (auto simp: add_account_def remove_account_def start_def stop_def reset_today_def
      set_obj_def cancel_def Let_def runnable_def split: option.splits if_splits)

lemma t_uid_handlers:
  "t_uid (tasks (snd (add_account s u t d)) j) = t_uid (tasks s j)"
  "t_uid (tasks (snd (remove_account s u)) j) = t_uid (tasks s j)"
  "t_uid (tasks (snd (stop s u)) j) = t_uid (tasks s j)"
  "t_uid (tasks (snd (reset_today s u)) j) = t_uid (tasks s j)"
  "j < n_tasks s \<Longrightarrow> t_uid (tasks (snd (start s u target)) j) = t_uid (tasks s j)"
  by (auto simp: add_account_def remove_account_def start_def stop_def reset_today_def
      set_obj_def cancel_def Let_def split: option.splits if_splits)

lemma n_tasks_handlers:
  "n_tasks (snd (add_account s u t d)) = n_tasks s"
  "n_tasks (snd (remove_account s u)) = n_tasks s"
  "n_tasks (snd (stop s u)) = n_tasks s"
  "n_tasks (snd (reset_today s u)) = n_tasks s"
  by (auto simp: add_account_def remove_account_def stop_def reset_today_def
      set_obj_def cancel_def Let_def split: option.splits if_splits)

lemma start_new_task:
  assumes "j < n_tasks (snd (start s u target))" "\<not> j < n_tasks s"
  shows "t_uid (tasks (snd (start s u target)) j) = u"
  using assms
  by (auto simp: start_def set_obj_def Let_def less_Suc_eq split: option.splits if_splits)

lemma no_new_loop:
  assumes "\<not> is_Start_of u e" "j < n_tasks (apply_event s e)"
    "t_uid (tasks (apply_event s e) j) = u" "runnable (tasks (apply_event s e) j)"
  shows "j < n_tasks s \<and> t_uid (tasks s j) = u \<and> runnable (tasks s j)"
proof (cases e)
  case (Start v target)
  have "j < n_tasks s"
    using assms start_new_task [of j s v target] Start by auto
  then show ?thesis
    using assms Start by (auto simp: t_uid_handlers dest: runnable_handlers)
qed (use assms in \<open>auto simp: t_uid_handlers n_tasks_handlers
      dest: runnable_handlers runnable_run_task\<close>)

lemma active_loops_empty:
  "active_loops s u = [] \<longleftrightarrow> (\<forall>j < n_tasks s. t_uid (tasks s j) = u \<longrightarrow> \<not> runnable (tasks s j))"
  by (auto simp: active_loops_def filter_empty_conv)

lemma quiet_apply_event:
  assumes "active_loops s u = []" "\<not> is_Start_of u e"
  shows "active_loops (apply_event s e) u = []"
  using assms no_new_loop [of u e _ s] unfolding active_loops_empty by blast

lemma quiet_exec:
  assumes "active_loops s u = []" "\<forall>e \<in> set es. \<not> is_Start_of u e"
  shows "active_loops (exec s es) u = []"
  using assms by (induction es arbitrary: s) (simp_all add: quiet_apply_event)

section \<open>The step after the poll\<close>

lemma after_poll_zero:
  assumes "level_ok a"
  shows "after_poll 0 a =
    (if (\<exists>t. target_level a = Some t \<and> t \<le> current_level a)
     then (a\<lparr>matchmaking := False, running := False, online := True\<rparr>, None)
     else (a\<lparr>matchmaking := False\<rparr>, Some SleepYield))"
  using assms
  by (cases "target_level a") (auto simp: after_poll_def loop_exit_def level_ok_def Let_def)

lemma after_poll_target:
  assumes "target_level a = Some t" "t \<le> level_from_xp (total_xp a + g)"
  shows "after_poll g a =
    (a\<lparr>today_xp := today_xp a + g, total_xp := total_xp a + g,
       current_level := level_from_xp (total_xp a + g), matchmaking := False,
       running := False, online := True\<rparr>, None)"
  using assms by (simp add: after_poll_def loop_exit_def Let_def)

section \<open>Accumulated amounts\<close>

lemma loop_head_xp:
  "total_xp (fst (loop_head a)) = total_xp a" "today_xp (fst (loop_head a)) = today_xp a"
  by (simp_all add: loop_head_def loop_exit_def)

lemma after_poll_xp:
  "total_xp (fst (after_poll g a)) = total_xp a + g"
  "today_xp (fst (after_poll g a)) = today_xp a + g"
  by (simp_all add: after_poll_def loop_exit_def Let_def split: option.splits)

lemma resume_xp:
  assumes "resume p w a = Some (a', k)"
  shows "total_xp a' = total_xp a + (if p = AwaitPoll then gained w else 0)"
    and "today_xp a' = today_xp a + (if p = AwaitPoll then gained w else 0)"
proof -
  have "total_xp a' = total_xp a + (if p = AwaitPoll then gained w else 0)
      \<and> today_xp a' = today_xp a + (if p = AwaitPoll then gained w else 0)"
  proof (cases p)
    case AwaitStart
    then show ?thesis using assms by (cases w) (auto simp: loop_exit_def)
  next
    case SleepPeriod
    then show ?thesis using assms by (cases w) auto
  next
    case AwaitPoll
    show ?thesis
    proof (cases w)
      case (Ok_poll g)
      then show ?thesis
        using assms AwaitPoll after_poll_xp [of "case g of None \<Rightarrow> 0 | Some n \<Rightarrow> n" a]
        by (cases g) auto
    next
      case Exc_poll
      then show ?thesis
        using assms AwaitPoll after_poll_xp [of 0 a] by auto
    qed (use assms AwaitPoll in auto)
  next
    case SleepYield
    then show ?thesis using assms loop_head_xp [of a] by (cases w) auto
  qed
  then show "total_xp a' = total_xp a + (if p = AwaitPoll then gained w else 0)"
    and "today_xp a' = today_xp a + (if p = AwaitPoll then gained w else 0)"
    by simp_all
qed

lemma run_task_xp:
  "total_xp (objects (run_task s i w) r) = total_xp (objects s r)
     \<or> total_xp (objects (run_task s i w) r) = total_xp (objects s r) + gained w"
  "today_xp (objects (run_task s i w) r) = today_xp (objects s r)
     \<or> today_xp (objects (run_task s i w) r) = today_xp (objects s r) + gained w"
  by (auto simp: run_task_def set_obj_def set_frame_def loop_head_def loop_exit_def
      split: frame.splits option.splits prod.splits if_splits dest: resume_xp)

lemma run_task_poll_xp:
  assumes "i < n_tasks s" "frame (tasks s i) = Suspended AwaitPoll r" "\<not> must_cancel (tasks s i)"
  shows "total_xp (objects (run_task s i w) r) = total_xp (objects s r) + gained w"
    and "today_xp (objects (run_task s i w) r) = today_xp (objects s r) + gained w"
proof -
  have "total_xp (objects (run_task s i w) r) = total_xp (objects s r) + gained w
      \<and> today_xp (objects (run_task s i w) r) = today_xp (objects s r) + gained w"
  proof (cases "resume AwaitPoll w (objects s r)")
    case None
    then have "gained w = 0"
      by (cases w) auto
    then show ?thesis
      using assms None by (simp add: run_task_def)
  next
    case (Some ak)
    obtain a' k where ak: "ak = (a', k)"
      by (cases ak)
    have "objects (run_task s i w) r = a'"
      using assms Some ak
      by (cases k) (simp_all add: run_task_def set_obj_def set_frame_def)
    then show ?thesis
      using resume_xp [of AwaitPoll w "objects s r" a' k] Some ak by simp
  qed
  then show "total_xp (objects (run_task s i w) r) = total_xp (objects s r) + gained w"
    and "today_xp (objects (run_task s i w) r) = today_xp (objects s r) + gained w"
    by simp_all
qed

lemma handlers_total_xp:
  "r < n_objects s \<Longrightarrow> total_xp (objects (snd (add_account s u t d)) r) = total_xp (objects s r)"
  "total_xp (objects (snd (remove_account s u)) r) = total_xp (objects s r)"
  "total_xp (objects (snd (start s u target)) r) = total_xp (objects s r)"
  "total_xp (objects (snd (stop s u)) r) = total_xp (objects s r)"
  "total_xp (objects (snd (reset_today s u)) r) = total_xp (objects s r)"
  by (auto simp: add_account_def remove_account_def start_def stop_def reset_today_def
      set_obj_def cancel_def Let_def split: option.splits if_splits)

lemma handlers_today_xp:
  "r < n_objects s \<Longrightarrow> today_xp (objects (snd (add_account s u t d)) r) = today_xp (objects s r)"
  "today_xp (objects (snd (remove_account s u)) r) = today_xp (objects s r)"
  "today_xp (objects (snd (start s u target)) r) = today_xp (objects s r)"
  "today_xp (objects (snd (stop s u)) r) = today_xp (objects s r)"
  by (auto simp: add_account_def remove_account_def start_def stop_def
      set_obj_def cancel_def Let_def split: option.splits if_splits)

lemma n_objects_apply_event: "n_objects s \<le> n_objects (apply_event s e)"
  by (cases e)
    (auto simp: add_account_def remove_account_def start_def stop_def reset_today_def
      set_obj_def cancel_def Let_def split: option.splits if_splits)

lemma total_xp_apply_event:
  assumes "nonneg_gain e" "r < n_objects s"
  shows "total_xp (objects s r) \<le> total_xp (objects (apply_event s e) r)"
proof (cases e)
  case (Run i w)
  then show ?thesis
    using assms run_task_xp(1) [of s i w r] by auto
qed (use assms in \<open>simp_all add: handlers_total_xp\<close>)

lemma today_xp_apply_event:
  assumes "nonneg_gain e" "\<not> is_ResetToday e" "r < n_objects s"
  shows "today_xp (objects s r) \<le> today_xp (objects (apply_event s e) r)"
proof (cases e)
  case (Run i w)
  then show ?thesis
    using assms run_task_xp(2) [of s i w r] by auto
qed (use assms in \<open>simp_all add: handlers_today_xp\<close>)

lemma total_xp_exec:
  assumes "\<forall>e \<in> set es. nonneg_gain e" "r < n_objects s"
  shows "total_xp (objects s r) \<le> total_xp (objects (exec s es) r)"
  using assms
proof (induction es arbitrary: s)
  case Nil
  then show ?case by simp
next
  case (Cons e es)
  have "r < n_objects (apply_event s e)"
    using Cons.prems(2) n_objects_apply_event [of s e] by simp
  then have "total_xp (objects (apply_event s e) r) \<le> total_xp (objects (exec (apply_event s e) es) r)"
    using Cons by simp
  moreover have "total_xp (objects s r) \<le> total_xp (objects (apply_event s e) r)"
    using Cons.prems by (simp add: total_xp_apply_event)
  ultimately show ?case by simp
qed

lemma today_xp_exec:
  assumes "\<forall>e \<in> set es. nonneg_gain e \<and> \<not> is_ResetToday e" "r < n_objects s"
  shows "today_xp (objects s r) \<le> today_xp (objects (exec s es) r)"
  using assms
proof (induction es arbitrary: s)
  case Nil
  then show ?case by simp
next
  case (Cons e es)
  have "r < n_objects (apply_event s e)"
    using Cons.prems(2) n_objects_apply_event [of s e] by simp
  then have "today_xp (objects (apply_event s e) r) \<le> today_xp (objects (exec (apply_event s e) es) r)"
    using Cons by simp
  moreover have "today_xp (objects s r) \<le> today_xp (objects (apply_event s e) r)"
    using Cons.prems by (simp add: today_xp_apply_event)
  ultimately show ?case by simp
qed

lemma xp_nonneg_apply_event:
  assumes "\<forall>r. 0 \<le> total_xp (objects s r) \<and> 0 \<le> today_xp (objects s r)" "nonneg_gain e"
  shows "\<forall>r. 0 \<le> total_xp (objects (apply_event s e) r) \<and> 0 \<le> today_xp (objects (apply_event s e) r)"
proof (cases e)
  case (Run i w)
  have "0 \<le> total_xp (objects (run_task s i w) r) \<and> 0 \<le> today_xp (objects (run_task s i w) r)" for r
    using assms Run run_task_xp [of s i w r] by (auto simp: add_nonneg_nonneg)
  then show ?thesis
    using Run by simp
next
  case (Add u t d)
  then show ?thesis
    using assms by (auto simp: add_account_def new_Account_def)
next
  case (ResetToday u)
  then show ?thesis
    using assms by (auto simp: reset_today_def set_obj_def split: option.splits)
qed (use assms in \<open>simp_all add: handlers_total_xp handlers_today_xp\<close>)

lemma xp_nonneg_exec:
  assumes "\<forall>r. 0 \<le> total_xp (objects s r) \<and> 0 \<le> today_xp (objects s r)"
    "\<forall>e \<in> set es. nonneg_gain e"
  shows "\<forall>r. 0 \<le> total_xp (objects (exec s es) r) \<and> 0 \<le> today_xp (objects (exec s es) r)"
  using assms
proof (induction es arbitrary: s)
  case Nil
  then show ?case by simp
next
  case (Cons e es)
  then show ?case
    using xp_nonneg_apply_event [of s e] by simp
qed

section \<open>The handle map\<close>

lemma TASKS_handlers:
  "TASKS (snd (add_account s u t d)) = TASKS s"
  "TASKS (snd (stop s u)) = TASKS s"
  "TASKS (snd (reset_today s u)) = TASKS s"
  "v \<noteq> u \<Longrightarrow> TASKS (snd (remove_account s u)) v = TASKS s v"
  "v \<noteq> u \<Longrightarrow> TASKS (snd (start s u target)) v = TASKS s v"
  by (auto simp: add_account_def remove_account_def start_def stop_def reset_today_def
      set_obj_def cancel_def Let_def split: option.splits if_splits)

lemma start_TASKS_self:
  "TASKS (snd (start s u target)) u = TASKS s u
     \<and> n_tasks (snd (start s u target)) = n_tasks s
   \<or> TASKS (snd (start s u target)) u = Some (n_tasks s)
     \<and> n_tasks (snd (start s u target)) = Suc (n_tasks s)
     \<and> t_uid (tasks (snd (start s u target)) (n_tasks s)) = u"
  by (auto simp: start_def set_obj_def Let_def split: option.splits if_splits)

lemma remove_TASKS_self: "map_of (ACCOUNTS s) u = Some r \<Longrightarrow> TASKS (snd (remove_account s u)) u = None"
  by (simp add: remove_account_def Let_def split: option.splits)

lemma remove_TASKS_cases:
  "TASKS (snd (remove_account s u)) v = TASKS s v \<or> TASKS (snd (remove_account s u)) v = None"
  by (auto simp: remove_account_def set_obj_def cancel_def Let_def split: option.splits if_splits)

lemma handles_ok_apply_event:
  assumes "handles_ok s"
  shows "handles_ok (apply_event s e)"
proof (cases e)
  case (Add u t d)
  then show ?thesis
    using assms by (simp add: handles_ok_def TASKS_handlers n_tasks_handlers t_uid_handlers)
next
  case (Remove u)
  show ?thesis
    unfolding handles_ok_def
  proof (intro allI impI)
    fix v i
    assume "TASKS (apply_event s e) v = Some i"
    then have "TASKS s v = Some i"
      using remove_TASKS_cases [of s u v] Remove by auto
    then show "i < n_tasks (apply_event s e) \<and> t_uid (tasks (apply_event s e) i) = v"
      using assms Remove by (simp add: handles_ok_def n_tasks_handlers t_uid_handlers)
  qed
next
  case (Start u target)
  show ?thesis
    unfolding handles_ok_def
  proof (intro allI impI)
    fix v i
    assume a: "TASKS (apply_event s e) v = Some i"
    show "i < n_tasks (apply_event s e) \<and> t_uid (tasks (apply_event s e) i) = v"
    proof (cases "TASKS s v = Some i")
      case True
      then have "i < n_tasks s" "t_uid (tasks s i) = v"
        using assms by (simp_all add: handles_ok_def)
      then show ?thesis
        using Start n_tasks_apply_event [of s e] by (simp add: t_uid_handlers)
    next
      case False
      then have "v = u"
        using a Start TASKS_handlers(5) [of v u s target] by auto
      then show ?thesis
        using a False Start start_TASKS_self [of s u target] by auto
    qed
  qed
next
  case (Stop u)
  then show ?thesis
    using assms by (simp add: handles_ok_def TASKS_handlers n_tasks_handlers t_uid_handlers)
next
  case (ResetToday u)
  then show ?thesis
    using assms by (simp add: handles_ok_def TASKS_handlers n_tasks_handlers t_uid_handlers)
next
  case (Run i w)
  then show ?thesis
    using assms by (simp add: handles_ok_def)
qed

lemma handles_ok_exec: "handles_ok s \<Longrightarrow> handles_ok (exec s es)"
  by (induction es arbitrary: s) (simp_all add: handles_ok_apply_event)

lemma handles_ok_init: "handles_ok init"
  by (simp add: handles_ok_def init_def)

lemma idle_no_active:
  assumes "inv s" "TASKS s u = None \<or> (\<exists>i. TASKS s u = Some i \<and> task_done (tasks s i))"
  shows "active_loops s u = []"
  unfolding active_loops_empty
proof (intro allI impI)
  fix j
  assume j: "j < n_tasks s" and u: "t_uid (tasks s j) = u"
  show "\<not> runnable (tasks s j)"
  proof
    assume r: "runnable (tasks s j)"
    have "owner_ok s"
      using assms(1) by (simp add: inv_def)
    then have "TASKS s u = Some j"
      using owner_ok_runnable(1) [of s j] j r u by simp
    then show False
      using assms(2) r by (auto simp: task_done_def runnable_def)
  qed
qed

lemma live_handle_in_live_loops:
  assumes "handles_ok s" "TASKS s u = Some i" "\<not> task_done (tasks s i)"
  shows "i \<in> set (live_loops s u)"
  using assms by (auto simp: handles_ok_def live_loops_def)

lemma ended_loop_keeps_handle:
  assumes "inv s" "i < n_tasks s" "runnable (tasks s i)"
  shows "TASKS (run_task s i w) (t_uid (tasks s i)) = Some i"
proof -
  have "owner_ok s"
    using assms(1) by (simp add: inv_def)
  then show ?thesis
    using owner_ok_runnable(1) [of s i] assms(2,3) by simp
qed

section \<open>The level function\<close>

text \<open>
  C7. For every non-negative \<open>xp\<close> the level function returns
  \<open>max 1 (xp div 1000 + 1)\<close>, which is at least 1; it is monotonically non-decreasing;
  and its values at 0, 999, 1000 and 2500 are 1, 1, 2 and 3.
\<close>

theorem level_from_xp_spec:
  "(0 \<le> xp \<longrightarrow> level_from_xp xp = max 1 (xp div 1000 + 1) \<and> level_from_xp xp = xp div 1000 + 1
       \<and> 1 \<le> level_from_xp xp)
   \<and> (0 \<le> x \<and> x \<le> y \<longrightarrow> level_from_xp x \<le> level_from_xp y)
   \<and> level_from_xp 0 = 1 \<and> level_from_xp 999 = 1
   \<and> level_from_xp 1000 = 2 \<and> level_from_xp 2500 = 3"
proof -
  have nonneg: "0 \<le> xp \<Longrightarrow> 0 \<le> xp div 1000"
    by simp
  have mono: "x \<le> y \<Longrightarrow> x div 1000 \<le> y div 1000"
    by (rule zdiv_mono1) simp_all
  show ?thesis
    using nonneg mono by (auto simp: level_from_xp_def)
qed

theorem level_from_xp_spec_witness:
  "(0::int) \<le> 2500 \<and> (0::int) \<le> 999 \<and> (999::int) \<le> 2500
   \<and> level_from_xp 2500 = 3 \<and> 1 \<le> level_from_xp 2500
   \<and> level_from_xp 999 \<le> level_from_xp 2500"
  using level_from_xp_spec [of 2500 999 2500] by simp

section \<open>Starting a loop\<close>

text \<open>
  C1. If \<^verbatim>\<open>start\<close> is called for a known uid, with no or a valid target, while \<^verbatim>\<open>TASKS\<close>
  holds a task for the uid that is not done, it answers \<^verbatim>\<open>{"ok": True, "msg": "Already running"}\<close>
  and creates no task. If the uid is idle (no task, or a done one) and a first \<^verbatim>\<open>start\<close>
  succeeds, then after a second \<^verbatim>\<open>start\<close> exactly one task more than before exists and
  the uid has exactly one more loop that is not done: one loop when it had none. And in
  every state reachable from the initial one, a uid has at most one loop that can still
  execute a statement of \<^verbatim>\<open>account_loop\<close>.
\<close>

theorem start_idempotent:
  "(map_of (ACCOUNTS s) u = Some r \<and> TASKS s u = Some i \<and> \<not> task_done (tasks s i)
      \<and> (\<forall>t. target = Some t \<longrightarrow> 1 \<le> t)
     \<longrightarrow> fst (start s u target) = Inr (Ok (Some ''Already running''))
         \<and> tasks (snd (start s u target)) = tasks s
         \<and> n_tasks (snd (start s u target)) = n_tasks s
         \<and> TASKS (snd (start s u target)) = TASKS s)
   \<and> ((TASKS s u = None \<or> (\<exists>j. TASKS s u = Some j \<and> task_done (tasks s j)))
        \<and> fst (start s u target) = Inr x
     \<longrightarrow> n_tasks (snd (start (snd (start s u target)) u target')) = Suc (n_tasks s)
         \<and> length (live_loops (snd (start (snd (start s u target)) u target')) u)
             = Suc (length (live_loops s u)))
   \<and> length (active_loops (exec init es) u) \<le> 1"
  using start_live [of s u r i target] start_twice_live [of s u target x target']
    active_loops_le_1 [OF inv_exec [OF inv_init], of es u]
  by blast

theorem start_idempotent_witness:
  "map_of (ACCOUNTS (exec init (queued None))) ''A'' = Some 0
   \<and> TASKS (exec init (queued None)) ''A'' = Some 0
   \<and> \<not> task_done (tasks (exec init (queued None)) 0)
   \<and> fst (start (exec init (queued None)) ''A'' (Some 3)) = Inr (Ok (Some ''Already running''))
   \<and> n_tasks (snd (start (exec init (queued None)) ''A'' (Some 3))) = 1
   \<and> TASKS (exec init registered) ''A'' = None
   \<and> fst (start (exec init registered) ''A'' None) = Inr (Ok None)
   \<and> live_loops (exec init registered) ''A'' = []
   \<and> length (live_loops (snd (start (snd (start (exec init registered) ''A'' None)) ''A'' None)) ''A'') = 1
   \<and> length (active_loops (exec init (queued None)) ''A'') \<le> 1"
  using start_idempotent [of "exec init (queued None)" "''A''" 0 0 "Some 3" _ _ "queued None"]
    start_idempotent [of "exec init registered" "''A''" _ _ None "Ok None" None]
  by (simp add: eval_defs)

section \<open>Stopping a loop\<close>

text \<open>
  C2. The loop of account \<^verbatim>\<open>A\<close> is suspended in the wait of line 101, with
  \<^verbatim>\<open>running\<close> set, when \<^verbatim>\<open>stop\<close> is called; \<^verbatim>\<open>stop\<close> succeeds. Once the event loop has run the
  cancelled task, the task is done, \<^verbatim>\<open>running\<close> is false and \<^verbatim>\<open>matchmaking\<close> is still true:
  line 120 is not reached, since it is not in a \<^verbatim>\<open>finally\<close> clause.
\<close>

theorem stop_leaves_matchmaking_set:
  "map_option running (account_of (exec init (waiting None)) ''A'') = Some True
   \<and> frame (tasks (exec init (waiting None)) 0) = Suspended SleepPeriod 0
   \<and> fst (stop (exec init (waiting None)) ''A'') = Inr (Ok None)
   \<and> task_done (tasks (exec init stopped_while_waiting) 0)
   \<and> map_option running (account_of (exec init stopped_while_waiting) ''A'') = Some False
   \<and> map_option matchmaking (account_of (exec init stopped_while_waiting) ''A'') = Some True"
  by (simp add: stopped_while_waiting_def eval_defs)

section \<open>The handle of a loop that has ended\<close>

text \<open>
  C3, as stated, fails: after the loop of \<^verbatim>\<open>A\<close> has ended on a failed submission, its
  task is done and \<^verbatim>\<open>TASKS\<close> still holds it.
\<close>

theorem handle_kept_counterexample:
  "task_done (tasks (exec init submission_failed) 0)
   \<and> TASKS (exec init submission_failed) ''A'' = Some 0"
  by (simp add: submission_failed_def eval_defs)

text \<open>
  C3, amended. The handle of a loop that has ended stays in \<^verbatim>\<open>TASKS\<close>, marked done: a
  run of a task, \<^verbatim>\<open>add_account\<close>, \<^verbatim>\<open>stop\<close> and \<^verbatim>\<open>reset_today\<close> leave \<^verbatim>\<open>TASKS\<close> as it
  is, \<^verbatim>\<open>start\<close> and \<^verbatim>\<open>remove_account\<close> leave the entries of the other uids, and
  \<^verbatim>\<open>start\<close> either keeps the entry of its uid or stores a new task in it; so in a
  reachable state the run in which a loop ends leaves its task in \<^verbatim>\<open>TASKS\<close>. Only
  \<^verbatim>\<open>remove_account\<close> of a known uid removes the handle. \<^verbatim>\<open>start\<close> takes a uid without a
  handle and a uid whose handle is done alike for idle: it creates a new task and stores
  it under the uid. And in every reachable state, no handle or a handle that is done is
  what shows a uid to be idle: then no loop of the uid can still execute a statement,
  while a handle that is not done is a loop of that uid that is not done.
\<close>

theorem handle_kept_until_removed:
  "TASKS (run_task s i w) = TASKS s
   \<and> TASKS (snd (add_account s u tok d)) = TASKS s
   \<and> TASKS (snd (stop s u)) = TASKS s
   \<and> TASKS (snd (reset_today s u)) = TASKS s
   \<and> (v \<noteq> u \<longrightarrow> TASKS (snd (start s u target)) v = TASKS s v
                \<and> TASKS (snd (remove_account s u)) v = TASKS s v)
   \<and> (TASKS (snd (start s u target)) u = TASKS s u
        \<or> TASKS (snd (start s u target)) u = Some (n_tasks s))
   \<and> (s = exec init es \<and> i < n_tasks s \<and> runnable (tasks s i)
        \<and> task_done (tasks (run_task s i w) i)
      \<longrightarrow> TASKS (run_task s i w) (t_uid (tasks s i)) = Some i)
   \<and> (map_of (ACCOUNTS s) u = Some r
      \<longrightarrow> fst (remove_account s u) = Inr (Ok None) \<and> TASKS (snd (remove_account s u)) u = None)
   \<and> (map_of (ACCOUNTS s) u = Some r
        \<and> (TASKS s u = None \<or> (\<exists>j. TASKS s u = Some j \<and> task_done (tasks s j)))
        \<and> (\<forall>t. target = Some t \<longrightarrow> 1 \<le> t)
      \<longrightarrow> fst (start s u target) = Inr (Ok None)
          \<and> TASKS (snd (start s u target)) u = Some (n_tasks s)
          \<and> n_tasks (snd (start s u target)) = Suc (n_tasks s)
          \<and> frame (tasks (snd (start s u target)) (n_tasks s)) = Created)
   \<and> (s = exec init es
        \<and> (TASKS s u = None \<or> (\<exists>j. TASKS s u = Some j \<and> task_done (tasks s j)))
      \<longrightarrow> active_loops s u = [])
   \<and> (s = exec init es \<and> TASKS s u = Some i \<and> \<not> task_done (tasks s i)
      \<longrightarrow> i \<in> set (live_loops s u))"
proof -
  have frames: "TASKS (run_task s i w) = TASKS s
   \<and> TASKS (snd (add_account s u tok d)) = TASKS s
   \<and> TASKS (snd (stop s u)) = TASKS s
   \<and> TASKS (snd (reset_today s u)) = TASKS s
   \<and> (v \<noteq> u \<longrightarrow> TASKS (snd (start s u target)) v = TASKS s v
                \<and> TASKS (snd (remove_account s u)) v = TASKS s v)"
    by (simp add: TASKS_handlers)
  have keeps: "TASKS (snd (start s u target)) u = TASKS s u
        \<or> TASKS (snd (start s u target)) u = Some (n_tasks s)"
    using start_TASKS_self [of s u target] by blast
  have ended: "TASKS (run_task s i w) (t_uid (tasks s i)) = Some i"
    if "s = exec init es" "i < n_tasks s" "runnable (tasks s i)"
    using that inv_exec [OF inv_init, of es] ended_loop_keeps_handle [of s i w] by simp
  have removed: "fst (remove_account s u) = Inr (Ok None) \<and> TASKS (snd (remove_account s u)) u = None"
    if "map_of (ACCOUNTS s) u = Some r"
    using that by (simp add: remove_account_def Let_def)
  have idle_start: "fst (start s u target) = Inr (Ok None)
          \<and> TASKS (snd (start s u target)) u = Some (n_tasks s)
          \<and> n_tasks (snd (start s u target)) = Suc (n_tasks s)
          \<and> frame (tasks (snd (start s u target)) (n_tasks s)) = Created"
    if "map_of (ACCOUNTS s) u = Some r"
      "TASKS s u = None \<or> (\<exists>j. TASKS s u = Some j \<and> task_done (tasks s j))"
      "\<forall>t. target = Some t \<longrightarrow> 1 \<le> t"
    using that by (auto simp: start_def set_obj_def Let_def split: option.splits)
  have idle: "active_loops s u = []"
    if "s = exec init es"
      "TASKS s u = None \<or> (\<exists>j. TASKS s u = Some j \<and> task_done (tasks s j))"
    using that inv_exec [OF inv_init, of es] idle_no_active [of s u] by simp
  have live: "i \<in> set (live_loops s u)"
    if "s = exec init es" "TASKS s u = Some i" "\<not> task_done (tasks s i)"
    using that handles_ok_exec [OF handles_ok_init, of es] live_handle_in_live_loops [of s u i]
    by simp
  show ?thesis
    using frames keeps ended removed idle_start idle live by blast
qed

theorem handle_kept_until_removed_witness:
  "''B'' \<noteq> ''A''
   \<and> TASKS (snd (start (exec init (queued None)) ''A'' None)) ''B'' = None
   \<and> (0::nat) < n_tasks (exec init (queued None))
   \<and> runnable (tasks (exec init (queued None)) 0)
   \<and> task_done (tasks (run_task (exec init (queued None)) 0 Exc_start) 0)
   \<and> TASKS (run_task (exec init (queued None)) 0 Exc_start) ''A'' = Some 0
   \<and> map_of (ACCOUNTS (exec init (queued None))) ''A'' = Some 0
   \<and> TASKS (snd (remove_account (exec init (queued None)) ''A'')) ''A'' = None
   \<and> TASKS (exec init (queued None)) ''A'' = Some 0
   \<and> \<not> task_done (tasks (exec init (queued None)) 0)
   \<and> 0 \<in> set (live_loops (exec init (queued None)) ''A'')
   \<and> map_of (ACCOUNTS (exec init submission_failed)) ''A'' = Some 0
   \<and> TASKS (exec init submission_failed) ''A'' = Some 0
   \<and> task_done (tasks (exec init submission_failed) 0)
   \<and> fst (start (exec init submission_failed) ''A'' None) = Inr (Ok None)
   \<and> TASKS (snd (start (exec init submission_failed) ''A'' None)) ''A'' = Some 1
   \<and> active_loops (exec init submission_failed) ''A'' = []
   \<and> map_of (ACCOUNTS (exec init registered)) ''A'' = Some 0
   \<and> TASKS (exec init registered) ''A'' = None
   \<and> fst (start (exec init registered) ''A'' None) = Inr (Ok None)
   \<and> TASKS (snd (start (exec init registered) ''A'' None)) ''A'' = Some 0
   \<and> active_loops (exec init registered) ''A'' = []"
  using
    handle_kept_until_removed [where s = "exec init (queued None)" and es = "queued None"
      and i = 0 and w = Exc_start and u = "''A''" and v = "''B''" and r = 0 and target = None]
    handle_kept_until_removed [where s = "exec init submission_failed" and es = submission_failed
      and i = 0 and u = "''A''" and r = 0 and target = None]
    handle_kept_until_removed [where s = "exec init registered" and es = registered
      and u = "''A''" and r = 0 and target = None]
  by (simp add: submission_failed_def eval_defs)

section \<open>Gateway failures\<close>

text \<open>
  C4. When the submission of line 95 raises in a loop that is not cancelled, the run of
  the task leaves \<^verbatim>\<open>matchmaking\<close> and \<^verbatim>\<open>running\<close> false and \<^verbatim>\<open>today_xp\<close>,
  \<^verbatim>\<open>total_xp\<close> and \<^verbatim>\<open>current_level\<close> as they were; the task is done, and stays done
  whatever happens afterwards, so nothing is retried.
\<close>

theorem submission_error_terminal:
  assumes "i < n_tasks s" "frame (tasks s i) = Suspended AwaitStart r" "\<not> must_cancel (tasks s i)"
  shows "\<not> matchmaking (objects (run_task s i Exc_start) r)
       \<and> \<not> running (objects (run_task s i Exc_start) r)
       \<and> today_xp (objects (run_task s i Exc_start) r) = today_xp (objects s r)
       \<and> total_xp (objects (run_task s i Exc_start) r) = total_xp (objects s r)
       \<and> current_level (objects (run_task s i Exc_start) r) = current_level (objects s r)
       \<and> task_done (tasks (run_task s i Exc_start) i)
       \<and> task_done (tasks (exec (run_task s i Exc_start) es) i)"
proof -
  have f: "frame (tasks (run_task s i Exc_start) i) = Finished"
    using assms by (simp add: run_task_def set_obj_def set_frame_def)
  have "frame (tasks (exec (run_task s i Exc_start) es) i) = Finished"
    using assms(1) f by (intro Finished_exec) simp_all
  moreover have "\<not> matchmaking (objects (run_task s i Exc_start) r)
       \<and> \<not> running (objects (run_task s i Exc_start) r)
       \<and> today_xp (objects (run_task s i Exc_start) r) = today_xp (objects s r)
       \<and> total_xp (objects (run_task s i Exc_start) r) = total_xp (objects s r)
       \<and> current_level (objects (run_task s i Exc_start) r) = current_level (objects s r)"
    using assms by (simp add: run_task_def set_obj_def set_frame_def loop_exit_def)
  ultimately show ?thesis
    using f by (simp add: task_done_def)
qed

theorem submission_error_terminal_witness:
  "(0::nat) < n_tasks (exec init (queued None))
   \<and> frame (tasks (exec init (queued None)) 0) = Suspended AwaitStart 0
   \<and> \<not> must_cancel (tasks (exec init (queued None)) 0)
   \<and> running (objects (exec init (queued None)) 0)
   \<and> \<not> running (objects (run_task (exec init (queued None)) 0 Exc_start) 0)
   \<and> \<not> matchmaking (objects (run_task (exec init (queued None)) 0 Exc_start) 0)
   \<and> total_xp (objects (run_task (exec init (queued None)) 0 Exc_start) 0) = 0
   \<and> task_done (tasks (exec (run_task (exec init (queued None)) 0 Exc_start) [Run 0 Ok_start]) 0)"
proof -
  have h: "(0::nat) < n_tasks (exec init (queued None))"
    "frame (tasks (exec init (queued None)) 0) = Suspended AwaitStart 0"
    "\<not> must_cancel (tasks (exec init (queued None)) 0)"
    by (simp_all add: eval_defs)
  show ?thesis
    using h submission_error_terminal [OF h, of "[Run 0 Ok_start]"]
    by (simp add: eval_defs)
qed

text \<open>
  C5. In a state reachable from the initial one, when the poll of line 104 raises in a
  loop that is not cancelled, \<^verbatim>\<open>today_xp\<close>, \<^verbatim>\<open>total_xp\<close> and \<^verbatim>\<open>current_level\<close> are
  unchanged. \<^verbatim>\<open>running\<close> was true; if the target is set and already met the loop ends
  with \<^verbatim>\<open>running\<close> false, otherwise \<^verbatim>\<open>running\<close> is still true, the loop is suspended
  in the sleep of line 118 and its next run submits again.
\<close>

theorem poll_error_zero_progress:
  assumes "s = exec init es" "i < n_tasks s" "frame (tasks s i) = Suspended AwaitPoll r"
    "\<not> must_cancel (tasks s i)"
  shows "today_xp (objects (run_task s i Exc_poll) r) = today_xp (objects s r)
       \<and> total_xp (objects (run_task s i Exc_poll) r) = total_xp (objects s r)
       \<and> current_level (objects (run_task s i Exc_poll) r) = current_level (objects s r)
       \<and> running (objects s r)
       \<and> (if (\<exists>t. target_level (objects s r) = Some t \<and> t \<le> current_level (objects s r))
          then task_done (tasks (run_task s i Exc_poll) i)
               \<and> \<not> running (objects (run_task s i Exc_poll) r)
          else frame (tasks (run_task s i Exc_poll) i) = Suspended SleepYield r
               \<and> running (objects (run_task s i Exc_poll) r)
               \<and> frame (tasks (run_task (run_task s i Exc_poll) i Elapsed) i)
                   = Suspended AwaitStart r)"
proof -
  have lv: "level_ok (objects s r)"
    using exec_level [of init es] init_level assms(1) by simp
  have "inv s"
    using assms(1) inv_exec [OF inv_init] by simp
  then have own: "owner_ok s"
    by (simp add: inv_def)
  have run: "running (objects s r)"
    using owner_okD(3) [OF own assms(2) _ assms(4) assms(3)] assms(3) by simp
  show ?thesis
    using assms(2-4) run after_poll_zero [OF lv]
    by (simp add: run_task_def set_obj_def set_frame_def task_done_def loop_head_def)
qed

theorem poll_error_zero_progress_witness:
  "(0::nat) < n_tasks (exec init (polling None))
   \<and> frame (tasks (exec init (polling None)) 0) = Suspended AwaitPoll 0
   \<and> \<not> must_cancel (tasks (exec init (polling None)) 0)
   \<and> total_xp (objects (run_task (exec init (polling None)) 0 Exc_poll) 0) = 0
   \<and> current_level (objects (run_task (exec init (polling None)) 0 Exc_poll) 0) = 1
   \<and> running (objects (run_task (exec init (polling None)) 0 Exc_poll) 0)
   \<and> frame (tasks (run_task (exec init (polling None)) 0 Exc_poll) 0) = Suspended SleepYield 0
   \<and> frame (tasks (exec init (polling (Some 1))) 0) = Suspended AwaitPoll 0
   \<and> task_done (tasks (run_task (exec init (polling (Some 1))) 0 Exc_poll) 0)
   \<and> \<not> running (objects (run_task (exec init (polling (Some 1))) 0 Exc_poll) 0)"
proof -
  have h: "(0::nat) < n_tasks (exec init (polling None))"
    "frame (tasks (exec init (polling None)) 0) = Suspended AwaitPoll 0"
    "\<not> must_cancel (tasks (exec init (polling None)) 0)"
    by (simp_all add: eval_defs)
  have k: "(0::nat) < n_tasks (exec init (polling (Some 1)))"
    "frame (tasks (exec init (polling (Some 1))) 0) = Suspended AwaitPoll 0"
    "\<not> must_cancel (tasks (exec init (polling (Some 1))) 0)"
    by (simp_all add: eval_defs)
  show ?thesis
    using h k poll_error_zero_progress [OF refl h] poll_error_zero_progress [OF refl k]
    by (simp add: eval_defs)
qed

section \<open>Reaching the target\<close>

text \<open>
  C6. In a state reachable from the initial one, let a loop that is not cancelled be
  resumed from the poll with gained amount \<open>g\<close> (0 when the poll raised or the payload has
  no amount), the target be set and the level of the new total reach it. Then the total
  grows by \<open>g\<close>, the level is recomputed, \<^verbatim>\<open>running\<close> is false and the task is done;
  the uid has no loop left that can execute a statement, and none appears as long as
  \<^verbatim>\<open>start\<close> is not called for it, so no gateway call is made for the uid. With target 2
  and a gateway answering 1000, the loop is still polling after three runs, and after the
  fourth, which ends the first cycle, the total is 1000, the level 2, \<^verbatim>\<open>running\<close> false
  and the task done.
\<close>

theorem target_reached_stops:
  "(s = exec init es \<and> i < n_tasks s \<and> frame (tasks s i) = Suspended AwaitPoll r
      \<and> \<not> must_cancel (tasks s i) \<and> target_level (objects s r) = Some t
      \<and> t \<le> level_from_xp (total_xp (objects s r) + g)
      \<and> (w = Ok_poll (Some g) \<or> g = 0 \<and> (w = Ok_poll None \<or> w = Exc_poll))
      \<and> (\<forall>e \<in> set es'. \<not> is_Start_of (t_uid (tasks s i)) e)
     \<longrightarrow> total_xp (objects (run_task s i w) r) = total_xp (objects s r) + g
         \<and> current_level (objects (run_task s i w) r) = level_from_xp (total_xp (objects s r) + g)
         \<and> t \<le> current_level (objects (run_task s i w) r)
         \<and> \<not> running (objects (run_task s i w) r)
         \<and> task_done (tasks (run_task s i w) i)
         \<and> active_loops (run_task s i w) (t_uid (tasks s i)) = []
         \<and> active_loops (exec (run_task s i w) es') (t_uid (tasks s i)) = [])
   \<and> frame (tasks (exec init (polling (Some 2))) 0) = Suspended AwaitPoll 0
   \<and> map_option total_xp
         (account_of (exec init (polling (Some 2) @ [Run 0 (Ok_poll (Some 1000))])) ''A'') = Some 1000
   \<and> map_option current_level
         (account_of (exec init (polling (Some 2) @ [Run 0 (Ok_poll (Some 1000))])) ''A'') = Some 2
   \<and> map_option running
         (account_of (exec init (polling (Some 2) @ [Run 0 (Ok_poll (Some 1000))])) ''A'') = Some False
   \<and> task_done (tasks (exec init (polling (Some 2) @ [Run 0 (Ok_poll (Some 1000))])) 0)"
proof -
  have general: "total_xp (objects (run_task s i w) r) = total_xp (objects s r) + g
         \<and> current_level (objects (run_task s i w) r) = level_from_xp (total_xp (objects s r) + g)
         \<and> t \<le> current_level (objects (run_task s i w) r)
         \<and> \<not> running (objects (run_task s i w) r)
         \<and> task_done (tasks (run_task s i w) i)
         \<and> active_loops (run_task s i w) (t_uid (tasks s i)) = []
         \<and> active_loops (exec (run_task s i w) es') (t_uid (tasks s i)) = []"
    if s: "s = exec init es" and i: "i < n_tasks s"
      and fr: "frame (tasks s i) = Suspended AwaitPoll r"
      and nc: "\<not> must_cancel (tasks s i)" and tg: "target_level (objects s r) = Some t"
      and le: "t \<le> level_from_xp (total_xp (objects s r) + g)"
      and w: "w = Ok_poll (Some g) \<or> g = 0 \<and> (w = Ok_poll None \<or> w = Exc_poll)"
      and ns: "\<forall>e \<in> set es'. \<not> is_Start_of (t_uid (tasks s i)) e"
  proof -
    let ?s' = "run_task s i w"
    let ?u = "t_uid (tasks s i)"
    have res: "resume AwaitPoll w (objects s r) = Some (after_poll g (objects s r))"
      using w by auto
    have step: "?s' = set_frame (set_obj s r (fst (after_poll g (objects s r)))) i Finished"
      using i fr nc res after_poll_target [OF tg le] by (simp add: run_task_def)
    have fin: "frame (tasks ?s' i) = Finished"
      by (simp add: step set_frame_def)
    have obj: "objects ?s' r = fst (after_poll g (objects s r))"
      by (simp add: step set_frame_def set_obj_def)
    have "inv s"
      using s inv_exec [OF inv_init] by simp
    then have "inv (apply_event s (Run i w))"
      by (rule inv_apply_event)
    then have own': "owner_ok ?s'"
      by (simp add: inv_def)
    have quiet: "active_loops ?s' ?u = []"
      unfolding active_loops_empty
    proof (intro allI impI)
      fix j
      assume j: "j < n_tasks ?s'" and u: "t_uid (tasks ?s' j) = ?u"
      show "\<not> runnable (tasks ?s' j)"
      proof
        assume rj: "runnable (tasks ?s' j)"
        have "runnable (tasks s i)"
          using fr nc by (simp add: runnable_def)
        moreover have "owner_ok s"
          using \<open>inv s\<close> by (simp add: inv_def)
        ultimately have "TASKS s ?u = Some i"
          using owner_ok_runnable(1) i by blast
        moreover have "TASKS ?s' ?u = Some j"
          using owner_ok_runnable(1) [OF own' j rj] u by simp
        ultimately have "j = i"
          by simp
        then show False
          using rj fin by (simp add: runnable_def)
      qed
    qed
    show ?thesis
      using fin obj quiet quiet_exec [OF quiet ns] after_poll_target [OF tg le] le
      by (simp add: task_done_def)
  qed
  have scenario: "frame (tasks (exec init (polling (Some 2))) 0) = Suspended AwaitPoll 0
   \<and> map_option total_xp
         (account_of (exec init (polling (Some 2) @ [Run 0 (Ok_poll (Some 1000))])) ''A'') = Some 1000
   \<and> map_option current_level
         (account_of (exec init (polling (Some 2) @ [Run 0 (Ok_poll (Some 1000))])) ''A'') = Some 2
   \<and> map_option running
         (account_of (exec init (polling (Some 2) @ [Run 0 (Ok_poll (Some 1000))])) ''A'') = Some False
   \<and> task_done (tasks (exec init (polling (Some 2) @ [Run 0 (Ok_poll (Some 1000))])) 0)"
    by (simp add: eval_defs)
  show ?thesis
    using general scenario by blast
qed

theorem target_reached_stops_witness:
  "(0::nat) < n_tasks (exec init (polling (Some 2)))
   \<and> frame (tasks (exec init (polling (Some 2))) 0) = Suspended AwaitPoll 0
   \<and> \<not> must_cancel (tasks (exec init (polling (Some 2))) 0)
   \<and> target_level (objects (exec init (polling (Some 2))) 0) = Some 2
   \<and> 2 \<le> level_from_xp (total_xp (objects (exec init (polling (Some 2))) 0) + 1000)
   \<and> \<not> is_Start_of (t_uid (tasks (exec init (polling (Some 2))) 0)) (Stop ''A'')
   \<and> \<not> is_Start_of (t_uid (tasks (exec init (polling (Some 2))) 0)) (Run 0 Elapsed)
   \<and> total_xp (objects (run_task (exec init (polling (Some 2))) 0 (Ok_poll (Some 1000))) 0) = 1000
   \<and> \<not> running (objects (run_task (exec init (polling (Some 2))) 0 (Ok_poll (Some 1000))) 0)
   \<and> task_done (tasks (run_task (exec init (polling (Some 2))) 0 (Ok_poll (Some 1000))) 0)
   \<and> active_loops (exec (run_task (exec init (polling (Some 2))) 0 (Ok_poll (Some 1000)))
         [Stop ''A'', Run 0 Elapsed]) ''A'' = []"
  using target_reached_stops [of "exec init (polling (Some 2))" "polling (Some 2)" 0 0 2 1000
      "Ok_poll (Some 1000)" "[Stop ''A'', Run 0 Elapsed]"]
  by (simp add: eval_defs)

section \<open>Level and accumulated amounts of an account\<close>

text \<open>
  C8. Every operation keeps the stored level equal to the level function of the stored
  total: if it holds of every account object before an event (a handler call or a run
  of a loop), it holds after it. Hence it holds of every registered account in every
  state reachable from the initial one; a newly added account has total 0 and level 1.
\<close>

theorem level_always_derived:
  "((\<forall>r. current_level (objects s r) = level_from_xp (total_xp (objects s r)))
      \<longrightarrow> (\<forall>r. current_level (objects (apply_event s e) r)
                 = level_from_xp (total_xp (objects (apply_event s e) r))))
   \<and> (account_of (exec init es) u = Some a \<longrightarrow> current_level a = level_from_xp (total_xp a))
   \<and> (fst (add_account s u t d) = Inr x
      \<longrightarrow> map_option total_xp (account_of (snd (add_account s u t d)) u) = Some 0
          \<and> map_option current_level (account_of (snd (add_account s u t d)) u) = Some 1
          \<and> level_from_xp 0 = 1)"
proof -
  have step: "\<forall>r. level_ok (objects (apply_event s e) r)" if "\<forall>r. level_ok (objects s r)"
    using that by (rule apply_event_level)
  have reach: "level_ok (objects (exec init es) r)" for r
    using exec_level [of init es] init_level by simp
  have "current_level a = level_from_xp (total_xp a)" if "account_of (exec init es) u = Some a"
    using that reach by (auto simp: account_of_def level_ok_def)
  moreover have "map_option total_xp (account_of (snd (add_account s u t d)) u) = Some 0
          \<and> map_option current_level (account_of (snd (add_account s u t d)) u) = Some 1
          \<and> level_from_xp 0 = 1" if "fst (add_account s u t d) = Inr x"
    using that
    by (auto simp: add_account_def account_of_def new_Account_def level_from_xp_def
        map_add_Some_iff split: if_splits)
  ultimately show ?thesis
    using step unfolding level_ok_def by blast
qed

theorem level_always_derived_witness:
  "current_level (objects init 0) = level_from_xp (total_xp (objects init 0))
   \<and> current_level (objects (apply_event (exec init (polling None)) (Run 0 (Ok_poll (Some 2500)))) 0) = 3
   \<and> total_xp (objects (apply_event (exec init (polling None)) (Run 0 (Ok_poll (Some 2500)))) 0) = 2500
   \<and> account_of (exec init registered) ''A'' = Some (new_Account ''A'' ''tok'' ''User A'')
   \<and> current_level (new_Account ''A'' ''tok'' ''User A'')
       = level_from_xp (total_xp (new_Account ''A'' ''tok'' ''User A''))
   \<and> fst (add_account init ''A'' ''tok'' []) = Inr (Ok None)
   \<and> map_option current_level (account_of (snd (add_account init ''A'' ''tok'' [])) ''A'') = Some 1"
proof -
  have a: "account_of (exec init registered) ''A'' = Some (new_Account ''A'' ''tok'' ''User A'')"
    by (simp add: eval_defs)
  have b: "fst (add_account init ''A'' ''tok'' []) = Inr (Ok None)"
    by (simp add: eval_defs)
  have c: "\<forall>r. current_level (objects (exec init (polling None)) r)
       = level_from_xp (total_xp (objects (exec init (polling None)) r))"
    by (simp add: eval_defs)
  show ?thesis
    using a b c
      level_always_derived [of "exec init (polling None)" "Run 0 (Ok_poll (Some 2500))" registered
        "''A''" "new_Account ''A'' ''tok'' ''User A''" "''tok''" "[]" "Ok None"]
      level_always_derived [of init _ registered
        "''A''" "new_Account ''A'' ''tok'' ''User A''" "''tok''" "[]" "Ok None"]
    by (simp add: eval_defs)
qed

text \<open>
  C9, as stated, fails: the gateway reports the amount -500 in the first cycle of account
  \<^verbatim>\<open>A\<close>, and the total goes from 0 to -500.
\<close>

theorem total_xp_decreases_counterexample:
  "map_option total_xp (account_of (exec init (polling None)) ''A'') = Some 0
   \<and> map_option total_xp
         (account_of (exec init (polling None @ [Run 0 (Ok_poll (Some (- 500)))])) ''A'')
       = Some (- 500)"
  by (simp add: eval_defs)

text \<open>
  C9, amended. A run of a loop from the poll adds the gained amount, whatever its sign, to
  \<^verbatim>\<open>total_xp\<close> and to \<^verbatim>\<open>today_xp\<close>. Over an execution in which no gained amount is
  negative, the total of an account object never decreases, and neither does
  \<^verbatim>\<open>today_xp\<close> as long as \<^verbatim>\<open>reset_today\<close> is not called; from the initial state, both are
  non-negative for every registered account. \<^verbatim>\<open>reset_today\<close> sets \<^verbatim>\<open>today_xp\<close> to 0 and
  leaves the total.
\<close>

theorem xp_monotone_for_nonneg_gains:
  "(i < n_tasks s \<and> frame (tasks s i) = Suspended AwaitPoll r \<and> \<not> must_cancel (tasks s i)
     \<longrightarrow> total_xp (objects (run_task s i w) r) = total_xp (objects s r) + gained w
         \<and> today_xp (objects (run_task s i w) r) = today_xp (objects s r) + gained w)
   \<and> ((\<forall>e \<in> set es. nonneg_gain e) \<and> r < n_objects s
     \<longrightarrow> total_xp (objects s r) \<le> total_xp (objects (exec s es) r))
   \<and> ((\<forall>e \<in> set es. nonneg_gain e \<and> \<not> is_ResetToday e) \<and> r < n_objects s
     \<longrightarrow> today_xp (objects s r) \<le> today_xp (objects (exec s es) r))
   \<and> ((\<forall>e \<in> set es. nonneg_gain e) \<and> account_of (exec init es) u = Some a
     \<longrightarrow> 0 \<le> total_xp a \<and> 0 \<le> today_xp a)
   \<and> (map_of (ACCOUNTS s) u = Some r
     \<longrightarrow> today_xp (objects (snd (reset_today s u)) r) = 0
         \<and> total_xp (objects (snd (reset_today s u)) r) = total_xp (objects s r))"
proof -
  have init0: "\<forall>r. 0 \<le> total_xp (objects init r) \<and> 0 \<le> today_xp (objects init r)"
    by (simp add: init_def new_Account_def)
  have "0 \<le> total_xp a \<and> 0 \<le> today_xp a"
    if "\<forall>e \<in> set es. nonneg_gain e" "account_of (exec init es) u = Some a"
    using xp_nonneg_exec [OF init0 that(1)] that(2) by (auto simp: account_of_def)
  moreover have "today_xp (objects (snd (reset_today s u)) r) = 0
         \<and> total_xp (objects (snd (reset_today s u)) r) = total_xp (objects s r)"
    if "map_of (ACCOUNTS s) u = Some r"
    using that by (simp add: reset_today_def set_obj_def)
  ultimately show ?thesis
    using run_task_poll_xp [of i s r w] total_xp_exec [of es r s] today_xp_exec [of es r s]
    by blast
qed

theorem xp_monotone_for_nonneg_gains_witness:
  "(0::nat) < n_tasks (exec init (polling None))
   \<and> frame (tasks (exec init (polling None)) 0) = Suspended AwaitPoll 0
   \<and> \<not> must_cancel (tasks (exec init (polling None)) 0)
   \<and> total_xp (objects (run_task (exec init (polling None)) 0 (Ok_poll (Some 120))) 0) = 120
   \<and> nonneg_gain (Run 0 (Ok_poll (Some 120))) \<and> nonneg_gain (Run 0 Elapsed)
   \<and> \<not> is_ResetToday (Run 0 (Ok_poll (Some 120))) \<and> \<not> is_ResetToday (Run 0 Elapsed)
   \<and> (0::nat) < n_objects (exec init (polling None))
   \<and> total_xp (objects (exec init (polling None)) 0)
       \<le> total_xp (objects (exec (exec init (polling None))
             [Run 0 (Ok_poll (Some 120)), Run 0 Elapsed]) 0)
   \<and> today_xp (objects (exec init (polling None)) 0)
       \<le> today_xp (objects (exec (exec init (polling None))
             [Run 0 (Ok_poll (Some 120)), Run 0 Elapsed]) 0)
   \<and> map_of (ACCOUNTS (exec init (polling None))) ''A'' = Some 0
   \<and> today_xp (objects (snd (reset_today (exec init (polling None)) ''A'')) 0) = 0
   \<and> account_of (exec init [Run 0 (Ok_poll (Some 120)), Run 0 Elapsed]) ''A'' = None
   \<and> account_of (exec init registered) ''A'' = Some (new_Account ''A'' ''tok'' ''User A'')
   \<and> nonneg_gain (Add ''A'' ''tok'' [])
   \<and> 0 \<le> total_xp (new_Account ''A'' ''tok'' ''User A'')"
  using xp_monotone_for_nonneg_gains [of 0 "exec init (polling None)" 0 "Ok_poll (Some 120)"
      "[Run 0 (Ok_poll (Some 120)), Run 0 Elapsed]" "''A''"]
    xp_monotone_for_nonneg_gains [of 0 "exec init (polling None)" 0 "Ok_poll (Some 120)"
      registered "''A''" "new_Account ''A'' ''tok'' ''User A''"]
  by (simp add: eval_defs)

section \<open>Starting again with another target\<close>

text \<open>
  C10. When \<^verbatim>\<open>start\<close> is called with a target of at least 1 for a known uid whose task in
  \<^verbatim>\<open>TASKS\<close> is not done, it answers \<^verbatim>\<open>{"ok": True, "msg": "Already running"}\<close>, creates no
  task, and has stored the new target in the account. This changes when the running loop
  ends: a loop started with target 5 goes on after a poll that gains 100, but ends at that
  poll when \<^verbatim>\<open>start\<close> with target 1 was called in between.
\<close>

theorem start_overwrites_target:
  "(map_of (ACCOUNTS s) u = Some r \<and> TASKS s u = Some i \<and> \<not> task_done (tasks s i) \<and> 1 \<le> t
     \<longrightarrow> fst (start s u (Some t)) = Inr (Ok (Some ''Already running''))
         \<and> target_level (objects (snd (start s u (Some t))) r) = Some t
         \<and> tasks (snd (start s u (Some t))) = tasks s
         \<and> n_tasks (snd (start s u (Some t))) = n_tasks s)
   \<and> map_option target_level (account_of (exec init (polling (Some 5))) ''A'') = Some (Some 5)
   \<and> frame (tasks (exec init (polling (Some 5) @ [Run 0 (Ok_poll (Some 100))])) 0)
       = Suspended SleepYield 0
   \<and> map_option target_level
         (account_of (exec init (polling (Some 5) @ [Start ''A'' (Some 1)])) ''A'') = Some (Some 1)
   \<and> frame (tasks (exec init (polling (Some 5) @ [Start ''A'' (Some 1)])) 0)
       = Suspended AwaitPoll 0
   \<and> task_done
         (tasks (exec init (polling (Some 5) @ [Start ''A'' (Some 1), Run 0 (Ok_poll (Some 100))])) 0)"
proof -
  have "fst (start s u (Some t)) = Inr (Ok (Some ''Already running''))
         \<and> target_level (objects (snd (start s u (Some t))) r) = Some t
         \<and> tasks (snd (start s u (Some t))) = tasks s
         \<and> n_tasks (snd (start s u (Some t))) = n_tasks s"
    if "map_of (ACCOUNTS s) u = Some r" "TASKS s u = Some i" "\<not> task_done (tasks s i)" "1 \<le> t"
    using that by (simp add: start_def set_obj_def Let_def)
  moreover have "map_option target_level (account_of (exec init (polling (Some 5))) ''A'') = Some (Some 5)
   \<and> frame (tasks (exec init (polling (Some 5) @ [Run 0 (Ok_poll (Some 100))])) 0)
       = Suspended SleepYield 0
   \<and> map_option target_level
         (account_of (exec init (polling (Some 5) @ [Start ''A'' (Some 1)])) ''A'') = Some (Some 1)
   \<and> frame (tasks (exec init (polling (Some 5) @ [Start ''A'' (Some 1)])) 0)
       = Suspended AwaitPoll 0
   \<and> task_done
         (tasks (exec init (polling (Some 5) @ [Start ''A'' (Some 1), Run 0 (Ok_poll (Some 100))])) 0)"
    by (simp add: eval_defs)
  ultimately show ?thesis
    by blast
qed

theorem start_overwrites_target_witness:
  "map_of (ACCOUNTS (exec init (polling (Some 5)))) ''A'' = Some 0
   \<and> TASKS (exec init (polling (Some 5))) ''A'' = Some 0
   \<and> \<not> task_done (tasks (exec init (polling (Some 5))) 0)
   \<and> target_level (objects (exec init (polling (Some 5))) 0) = Some 5
   \<and> fst (start (exec init (polling (Some 5))) ''A'' (Some 1)) = Inr (Ok (Some ''Already running''))
   \<and> target_level (objects (snd (start (exec init (polling (Some 5))) ''A'' (Some 1))) 0) = Some 1
   \<and> n_tasks (snd (start (exec init (polling (Some 5))) ''A'' (Some 1))) = 1"
  using start_overwrites_target [of "exec init (polling (Some 5))" "''A''" 0 0 1]
  by (simp add: eval_defs)

end
